theory Spec2Isabelle
  imports Complex_Main
begin

section \<open>Pitch parsing (playback engine)\<close>

text \<open>
  Both pitch functions start with
  \<^verbatim>\<open>pitch.match(/^([A-G])(#|b)?(\d)$/)\<close>.
  The expression is anchored at both ends and has no flags, so it matches exactly the
  strings of two or three characters made of a letter \<open>A\<close> to \<open>G\<close>, an optional
  \<open>#\<close> or \<open>b\<close>, and one ASCII digit.  \<open>pitch_match\<close> returns the three capture
  groups, \<open>None\<close> standing for the \<^verbatim>\<open>null\<close> result of \<^verbatim>\<open>match\<close>; an
  absent accidental group is \<open>None\<close> (\<^verbatim>\<open>undefined\<close> in the source).
\<close>

definition is_note_letter :: "char \<Rightarrow> bool" where
  "is_note_letter c = (c \<in> set ''ABCDEFG'')"

definition is_digit :: "char \<Rightarrow> bool" where
  "is_digit c = (c \<in> set ''0123456789'')"

definition is_accidental :: "char \<Rightarrow> bool" where
  "is_accidental c = (c = CHR ''#'' \<or> c = CHR ''b'')"

fun pitch_match :: "string \<Rightarrow> (char \<times> char option \<times> char) option" where
  "pitch_match [l, d] =
     (if is_note_letter l \<and> is_digit d then Some (l, None, d) else None)"
| "pitch_match [l, a, d] =
     (if is_note_letter l \<and> is_accidental a \<and> is_digit d then Some (l, Some a, d) else None)"
| "pitch_match _ = None"

text \<open>Soundfont note names use flats (\<open>Db\<close>, not \<open>C#\<close>).\<close>

definition SHARP_TO_FLAT :: "string \<rightharpoonup> string" where
  "SHARP_TO_FLAT = map_of
     [(''C#'', ''Db''), (''D#'', ''Eb''), (''F#'', ''Gb''), (''G#'', ''Ab''), (''A#'', ''Bb'')]"

definition pitchToSampleKey :: "string \<Rightarrow> string" where
  "pitchToSampleKey pitch =
     (case pitch_match pitch of
        None \<Rightarrow> ''C4''
      | Some (letter, acc, oct) \<Rightarrow>
          (case (if acc = Some CHR ''#'' then SHARP_TO_FLAT [letter, CHR ''#''] else None) of
             Some flat \<Rightarrow> flat @ [oct]
           | None \<Rightarrow> letter # (case acc of None \<Rightarrow> [] | Some a \<Rightarrow> [a]) @ [oct]))"

definition NOTE_SEMITONES :: "char \<rightharpoonup> int" where
  "NOTE_SEMITONES = map_of
     [(CHR ''C'', -9), (CHR ''D'', -7), (CHR ''E'', -5), (CHR ''F'', -4),
      (CHR ''G'', -2), (CHR ''A'', 0), (CHR ''B'', 2)]"

text \<open>\<^verbatim>\<open>parseInt(oct)\<close> on the single digit captured by \<^verbatim>\<open>(\d)\<close>.\<close>

definition parseInt_digit :: "char \<Rightarrow> int" where
  "parseInt_digit c = int (of_char c) - 48"

text \<open>
  The number of semitones above A4.  A missing entry of \<open>NOTE_SEMITONES\<close> would make
  the sum \<^verbatim>\<open>NaN\<close> in the source; that is the \<open>None\<close> of the inner case.
\<close>

definition pitchSemitones :: "char \<times> char option \<times> char \<Rightarrow> int option" where
  "pitchSemitones m =
     (case m of (note, acc, oct) \<Rightarrow>
        (case NOTE_SEMITONES note of
           None \<Rightarrow> None
         | Some base \<Rightarrow>
             Some (base + (parseInt_digit oct - 4) * 12
                   + (if acc = Some CHR ''#'' then 1 else 0)
                   - (if acc = Some CHR ''b'' then 1 else 0))))"

text \<open>
  \<open>pitchToFreq\<close> returns a number in hertz; \<open>None\<close> is a \<^verbatim>\<open>NaN\<close> result.
  Numbers are real numbers here: the source computes in IEEE double precision.
\<close>

definition pitchToFreq :: "string \<Rightarrow> real option" where
  "pitchToFreq pitch =
     (case pitch_match pitch of
        None \<Rightarrow> Some 440
      | Some m \<Rightarrow>
          (case pitchSemitones m of
             None \<Rightarrow> None
           | Some semitones \<Rightarrow> Some (440 * 2 powr (real_of_int semitones / 12))))"

text \<open>
  The pattern in the words of the specification: a letter A to G, an optional sharp or
  flat, a single octave digit.
\<close>

definition well_formed_pitch :: "string \<Rightarrow> bool" where
  "well_formed_pitch p \<longleftrightarrow>
     (\<exists>l d. p = [l, d] \<and> is_note_letter l \<and> is_digit d) \<or>
     (\<exists>l a d. p = [l, a, d] \<and> is_note_letter l \<and> is_accidental a \<and> is_digit d)"

section \<open>Server: per-measure signature overrides\<close>

text \<open>
  A row of the table \<^verbatim>\<open>measure_signatures\<close> without its primary key: each of the
  three columns may be \<^verbatim>\<open>NULL\<close>.
\<close>

record signature_fields =
  key_signature :: "string option"
  time_signature :: "string option"
  tempo :: "int option"

text \<open>
  The body of \<^verbatim>\<open>PUT /api/measure-signature/:measure\<close>, destructured into the
  three fields the handler reads; \<open>None\<close> is a field that is absent or \<^verbatim>\<open>null\<close>.
\<close>

record put_body =
  req_key_signature :: "string option"
  req_time_signature :: "string option"
  req_tempo :: "int option"

record server_db =
  total_measures :: int
  measure_signatures :: "int \<rightharpoonup> signature_fields"

datatype 'a response = Json 'a | Status400 string

text \<open>\<^verbatim>\<open>v || null\<close> for a text field and for a number field.\<close>

definition text_or_null :: "string option \<Rightarrow> string option" where
  "text_or_null v = (case v of None \<Rightarrow> None | Some s \<Rightarrow> if s = [] then None else Some s)"

definition number_or_null :: "int option \<Rightarrow> int option" where
  "number_or_null v = (case v of None \<Rightarrow> None | Some n \<Rightarrow> if n = 0 then None else Some n)"

text \<open>
  The handler: range check of the measure, range check of a tempo that is present, then
  the upsert, whose \<^verbatim>\<open>ON CONFLICT(measure) DO UPDATE\<close> sets all three columns
  from the new row.  The response is the row read back.
\<close>

definition put_measure_signature ::
  "server_db \<Rightarrow> int \<Rightarrow> put_body \<Rightarrow> (int \<times> signature_fields) response \<times> server_db" where
  "put_measure_signature db m body =
     (if m < 1 \<or> m > total_measures db then (Status400 ''Measure out of range'', db)
      else if (case req_tempo body of None \<Rightarrow> False | Some t \<Rightarrow> t < 20 \<or> t > 300)
        then (Status400 ''Tempo must be between 20 and 300 BPM'', db)
      else
        (let row = \<lparr> key_signature = text_or_null (req_key_signature body),
                      time_signature = text_or_null (req_time_signature body),
                      tempo = number_or_null (req_tempo body) \<rparr>
         in (Json (m, row), db \<lparr> measure_signatures := (measure_signatures db)(m \<mapsto> row) \<rparr>)))"

section \<open>Score data on the client\<close>

record score =
  title :: string
  score_key_signature :: string
  score_time_signature :: string
  score_tempo :: int
  score_total_measures :: nat

text \<open>An element of \<^verbatim>\<open>scoreData.measureSignatures\<close>: a row with its measure.\<close>

record measure_signature = signature_fields +
  sig_measure :: nat

record score_note =
  note_id :: string
  instrument_id :: string
  pitch :: string
  note_measure :: nat
  beat :: real
  duration :: string
  is_rest :: bool
  dynamic :: "string option"
  vibrato :: int

record score_data =
  score :: score
  score_notes :: "score_note list"
  measureSignatures :: "measure_signature list"

record effective_signature =
  eff_key :: string
  eff_time :: string
  eff_tempo :: int

text \<open>
  \<^verbatim>\<open>getEffectiveSignature\<close>: every override at or before the measure replaces the
  running value of each field it carries (a truthy field: a non-empty text, a non-zero
  number), in the order of the list.
\<close>

fun apply_signatures ::
  "nat \<Rightarrow> measure_signature list \<Rightarrow> effective_signature \<Rightarrow> effective_signature" where
  "apply_signatures m [] e = e"
| "apply_signatures m (s # sigs) e =
     apply_signatures m sigs
       (if sig_measure s \<le> m then
          \<lparr> eff_key = (case text_or_null (key_signature s) of Some k \<Rightarrow> k | None \<Rightarrow> eff_key e),
            eff_time = (case text_or_null (time_signature s) of Some t \<Rightarrow> t | None \<Rightarrow> eff_time e),
            eff_tempo = (case number_or_null (tempo s) of Some t \<Rightarrow> t | None \<Rightarrow> eff_tempo e) \<rparr>
        else e)"

definition getEffectiveSignature :: "nat \<Rightarrow> score_data \<Rightarrow> effective_signature" where
  "getEffectiveSignature m scoreData =
     apply_signatures m (measureSignatures scoreData)
       \<lparr> eff_key = score_key_signature (score scoreData),
         eff_time = score_time_signature (score scoreData),
         eff_tempo = score_tempo (score scoreData) \<rparr>"

definition DUR_TO_BEATS :: "string \<rightharpoonup> real" where
  "DUR_TO_BEATS = map_of
     [(''whole'', 4), (''half'', 2), (''quarter'', 1), (''eighth'', 1 / 2), (''sixteenth'', 1 / 4)]"

section \<open>Numbers\<close>

text \<open>
  The source computes with IEEE doubles.  Here a number is a real number, computed
  exactly, and the operations that leave the finite numbers return \<open>None\<close>: a division
  by zero, and \<^verbatim>\<open>Number(s)\<close> on a text that is not a plain decimal numeral (the
  source gives a number for some other texts and \<^verbatim>\<open>NaN\<close> for the rest; neither is
  followed here).
\<close>

definition js_div :: "real \<Rightarrow> real \<Rightarrow> real option" where
  "js_div a b = (if b = 0 then None else Some (a / b))"

definition digit_value :: "char \<Rightarrow> nat" where
  "digit_value c = of_char c - 48"

definition js_Number :: "string \<Rightarrow> real option" where
  "js_Number s =
     (if s \<noteq> [] \<and> list_all is_digit s
      then Some (real (foldl (\<lambda>acc c. 10 * acc + digit_value c) 0 s))
      else None)"

text \<open>\<^verbatim>\<open>v || d\<close> where \<open>v\<close> is a number or \<^verbatim>\<open>undefined\<close>.\<close>

definition number_or :: "real option \<Rightarrow> real \<Rightarrow> real" where
  "number_or v d = (case v of None \<Rightarrow> d | Some x \<Rightarrow> if x = 0 then d else x)"

text \<open>The first element of \<^verbatim>\<open>time.split('/')\<close>, converted by \<^verbatim>\<open>Number\<close>.\<close>

definition time_beats :: "string \<Rightarrow> real option" where
  "time_beats t = js_Number (takeWhile (\<lambda>c. c \<noteq> CHR ''/'') t)"

section \<open>Sample cache\<close>

definition SAMPLE_BASE :: string where
  "SAMPLE_BASE = ''https://gleitz.github.io/midi-js-soundfonts/FluidR3_GM''"

definition INST_TO_SOUNDFONT :: "string \<rightharpoonup> string" where
  "INST_TO_SOUNDFONT = map_of
     [(''violin1'', ''violin''), (''violin2'', ''violin''), (''viola'', ''viola''),
      (''cello'', ''cello''), (''contrabass'', ''contrabass'')]"

text \<open>\<^verbatim>\<open>INST_TO_SOUNDFONT[id] || 'violin'\<close>; no entry of the table is empty.\<close>

definition soundfont_of :: "string \<Rightarrow> string" where
  "soundfont_of inst = (case INST_TO_SOUNDFONT inst of Some s \<Rightarrow> s | None \<Rightarrow> ''violin'')"

definition cache_key :: "string \<Rightarrow> string \<Rightarrow> string" where
  "cache_key sfInst sampleKey = sfInst @ '':'' @ sampleKey"

definition note_cache_key :: "score_note \<Rightarrow> string" where
  "note_cache_key n = cache_key (soundfont_of (instrument_id n)) (pitchToSampleKey (pitch n))"

definition sample_url :: "string \<Rightarrow> string \<Rightarrow> string" where
  "sample_url sfInst sampleKey = SAMPLE_BASE @ ''/'' @ sfInst @ ''-mp3/'' @ sampleKey @ ''.mp3''"

text \<open>
  A promise made by \<^verbatim>\<open>_load\<close>.  Making it calls \<^verbatim>\<open>fetch(url)\<close> once, so the
  promises are also the record of the requests sent.  It settles once, with success
  (the sample decoded and cached) or failure (a warning logged); the promise itself
  resolves in both cases.
\<close>

datatype promise_state = InFlight | Settled bool

record load_promise =
  load_key :: string
  load_url :: string
  load_state :: promise_state

section \<open>Audio nodes\<close>

datatype node_role = SampleSource | ToneOscillator | VibratoLfo

datatype param_event =
    SetValueAtTime real real
  | LinearRampToValueAtTime real real
  | ExponentialRampToValueAtTime real real

text \<open>
  A node that \<^verbatim>\<open>_scheduleNote\<close> starts and records in \<^verbatim>\<open>scheduledNodes\<close>: the
  buffer source, the fallback oscillator or the vibrato oscillator.  \<open>for_note\<close> is the
  id of the note it was made for.  \<open>modulation\<close> is the automation of the gain that
  scales a vibrato oscillator, \<open>envelope\<close> the automation of the gain of the note itself.
  \<open>halted\<close> becomes true when \<^verbatim>\<open>node.stop()\<close> is called with no time.
\<close>

record audio_node =
  role :: node_role
  for_note :: string
  frequency :: "real option"
  modulation :: "param_event list"
  envelope :: "param_event list"
  start_at :: real
  stop_at :: real
  halted :: bool

section \<open>The engine and its surroundings\<close>

text \<open>
  The fields of \<^verbatim>\<open>PlaybackEngine\<close>.  \<open>scheduledNodes\<close> holds indices into the
  nodes of the audio context; \<open>onPlaybackTick\<close> says whether a callback is registered;
  fields that the constructor leaves unset are options or empty tables.  The audio
  context, the reverb buffer and the master bus are not represented: no field below
  depends on them.
\<close>

record engine =
  playing :: bool
  loading :: bool
  startTime :: real
  startMeasure :: nat
  scheduledNodes :: "nat list"
  mutedInstruments :: "string set"
  soloInstrument :: "string option"
  onPlaybackTick :: bool
  animFrame :: "nat option"
  engine_scoreData :: "score_data option"
  lastPlayMeasure :: "nat option"
  measureStartTimes :: "nat \<rightharpoonup> real"
  measureSecPerBeat :: "nat \<rightharpoonup> real"
  totalDuration :: "real option"

text \<open>
  A call of \<^verbatim>\<open>play\<close> suspended at \<^verbatim>\<open>await this._samples.preload(...)\<close>: its two
  arguments and the promises that \<^verbatim>\<open>Promise.all\<close> waits for.
\<close>

record play_task =
  task_scoreData :: score_data
  task_fromMeasure :: nat
  task_jobs :: "nat list"
  task_done :: bool

datatype tick_data = Tick nat real | TickStopped

text \<open>
  Everything the engine acts on: its own fields, the sample cache (\<open>cache\<close> holds the
  keys that have a decoded buffer, \<open>pending\<close> is the in-flight table), the promises made
  so far, the nodes of the audio context and its clock, the animation-frame requests
  that are outstanding, the suspended calls of \<^verbatim>\<open>play\<close>, and the data passed to the
  tick callback so far.
\<close>

record world =
  engine :: engine
  cache :: "string set"
  pending :: "string \<rightharpoonup> nat"
  promises :: "load_promise list"
  nodes :: "audio_node list"
  currentTime :: real
  frames :: "nat set"
  next_frame :: nat
  tasks :: "play_task list"
  emitted :: "tick_data list"

definition new_engine :: engine where
  "new_engine =
     \<lparr> playing = False, loading = False, startTime = 0, startMeasure = 1,
       scheduledNodes = [], mutedInstruments = {}, soloInstrument = None,
       onPlaybackTick = False, animFrame = None, engine_scoreData = None,
       lastPlayMeasure = None, measureStartTimes = Map.empty,
       measureSecPerBeat = Map.empty, totalDuration = None \<rparr>"

definition new_world :: world where
  "new_world =
     \<lparr> engine = new_engine, cache = {}, pending = Map.empty, promises = [], nodes = [],
       currentTime = 0, frames = {}, next_frame = 1, tasks = [], emitted = [] \<rparr>"

subsection \<open>SampleCache\<close>

text \<open>
  \<^verbatim>\<open>_load\<close>: an in-flight promise for the key is returned as it is; otherwise a new
  promise is made (the request goes out) and entered in the in-flight table.
\<close>

definition load :: "string \<Rightarrow> string \<Rightarrow> string \<Rightarrow> world \<Rightarrow> nat \<times> world" where
  "load sfInst sampleKey cacheKey w =
     (case pending w cacheKey of
        Some p \<Rightarrow> (p, w)
      | None \<Rightarrow>
          (length (promises w),
           w \<lparr> promises := promises w @
                  [\<lparr> load_key = cacheKey, load_url = sample_url sfInst sampleKey,
                     load_state = InFlight \<rparr>],
               pending := (pending w)(cacheKey \<mapsto> length (promises w)) \<rparr>))"

text \<open>The loop of \<^verbatim>\<open>preload\<close>, with its local \<open>seen\<close> and \<open>jobs\<close>.\<close>

fun preload_loop :: "score_note list \<Rightarrow> string set \<Rightarrow> nat list \<Rightarrow> world \<Rightarrow> nat list \<times> world" where
  "preload_loop [] seen jobs w = (jobs, w)"
| "preload_loop (n # ns) seen jobs w =
     (if is_rest n then preload_loop ns seen jobs w
      else if note_cache_key n \<in> seen \<or> note_cache_key n \<in> cache w
        then preload_loop ns seen jobs w
      else
        (case load (soundfont_of (instrument_id n)) (pitchToSampleKey (pitch n))
                (note_cache_key n) w of
           (p, w') \<Rightarrow> preload_loop ns (insert (note_cache_key n) seen) (jobs @ [p]) w'))"

definition preload :: "score_note list \<Rightarrow> world \<Rightarrow> nat list \<times> world" where
  "preload ns w = preload_loop ns {} [] w"

text \<open>
  The rest of the body of a promise, run when its request and decoding have settled:
  on success the buffer is cached, on failure a warning is logged, and in both cases
  the \<^verbatim>\<open>finally\<close> block deletes the key from the in-flight table.  \<open>None\<close>: there is no
  such promise in flight.
\<close>

definition load_settle :: "nat \<Rightarrow> bool \<Rightarrow> world \<Rightarrow> world option" where
  "load_settle p ok w =
     (if p < length (promises w) \<and> load_state (promises w ! p) = InFlight then
        Some (w \<lparr> cache := (if ok then insert (load_key (promises w ! p)) (cache w) else cache w),
                  pending := (pending w)(load_key (promises w ! p) := None),
                  promises := (promises w)[p := (promises w ! p) \<lparr> load_state := Settled ok \<rparr>] \<rparr>)
      else None)"

text \<open>\<^verbatim>\<open>get\<close>, as the test \<^verbatim>\<open>if (buffer)\<close> uses it: is there a buffer?\<close>

definition samples_get :: "world \<Rightarrow> string \<Rightarrow> string \<Rightarrow> bool" where
  "samples_get w instrumentId p \<longleftrightarrow>
     cache_key (soundfont_of instrumentId) (pitchToSampleKey p) \<in> cache w"

subsection \<open>stop, toggleMute, toggleSolo\<close>

text \<open>\<^verbatim>\<open>try { node.stop(); } catch (_) {}\<close> on one recorded node.\<close>

definition halt_node :: "nat \<Rightarrow> audio_node list \<Rightarrow> audio_node list" where
  "halt_node i ns = (if i < length ns then ns[i := (ns ! i) \<lparr> halted := True \<rparr>] else ns)"

definition stop :: "world \<Rightarrow> world" where
  "stop w =
     w \<lparr> engine := (engine w) \<lparr> playing := False, loading := False,
                              scheduledNodes := [], animFrame := None \<rparr>,
         nodes := fold halt_node (scheduledNodes (engine w)) (nodes w),
         frames := (case animFrame (engine w) of
                      None \<Rightarrow> frames w
                    | Some h \<Rightarrow> frames w - {h}),
         emitted := (if onPlaybackTick (engine w) then emitted w @ [TickStopped]
                     else emitted w) \<rparr>"

definition toggleMute :: "string \<Rightarrow> engine \<Rightarrow> engine" where
  "toggleMute instrumentId e =
     (if instrumentId \<in> mutedInstruments e
      then e \<lparr> mutedInstruments := mutedInstruments e - {instrumentId} \<rparr>
      else e \<lparr> mutedInstruments := insert instrumentId (mutedInstruments e) \<rparr>)"

definition toggleSolo :: "string \<Rightarrow> engine \<Rightarrow> engine" where
  "toggleSolo instrumentId e =
     e \<lparr> soloInstrument :=
           (if soloInstrument e = Some instrumentId then None else Some instrumentId) \<rparr>"

subsection \<open>Scheduling one note\<close>

definition DYNAMIC_GAIN :: "string \<rightharpoonup> real" where
  "DYNAMIC_GAIN = map_of
     [(''pp'', 3 / 10), (''p'', 1 / 2), (''mp'', 7 / 10), (''mf'', 1), (''f'', 13 / 10),
      (''ff'', 16 / 10)]"

definition INST_GAIN :: "string \<rightharpoonup> real" where
  "INST_GAIN = map_of
     [(''violin1'', 9 / 10), (''violin2'', 85 / 100), (''viola'', 9 / 10), (''cello'', 1),
      (''contrabass'', 11 / 10)]"

definition SCHEDULE_AHEAD :: real where
  "SCHEDULE_AHEAD = 12 / 100"

text \<open>A node is created in the audio context and pushed on \<^verbatim>\<open>scheduledNodes\<close>.\<close>

definition push_node :: "audio_node \<Rightarrow> world \<Rightarrow> world" where
  "push_node nd w =
     w \<lparr> nodes := nodes w @ [nd],
         engine := (engine w) \<lparr> scheduledNodes := scheduledNodes (engine w) @ [length (nodes w)] \<rparr> \<rparr>"

text \<open>
  The vibrato oscillator of either branch: 5.2 Hz, its gain set to 0 at the start of
  the note and ramped linearly to \<open>depth\<close>; \<open>tail\<close> is how long after the end of the note
  it is stopped.
\<close>

definition vibrato_lfo :: "score_note \<Rightarrow> real \<Rightarrow> real \<Rightarrow> real \<Rightarrow> real \<Rightarrow> audio_node" where
  "vibrato_lfo n depth tail startT dur =
     \<lparr> role = VibratoLfo, for_note = note_id n, frequency = Some (52 / 10),
       modulation = [SetValueAtTime 0 startT,
                     LinearRampToValueAtTime depth (startT + min (4 / 10) (dur * (5 / 10)))],
       envelope = [], start_at = startT, stop_at = startT + dur + tail, halted = False \<rparr>"

definition scheduleNote :: "score_note \<Rightarrow> real \<Rightarrow> real \<Rightarrow> world \<Rightarrow> world" where
  "scheduleNote n startT dur w =
     (let dynGain = number_or (case dynamic n of None \<Rightarrow> None | Some d \<Rightarrow> DYNAMIC_GAIN d) 1;
          instGain = number_or (INST_GAIN (instrument_id n)) 1;
          totalGain = dynGain * instGain;
          useVibrato = (vibrato n = 1)
      in
        if samples_get w (instrument_id n) (pitch n) then
          (let attack = min (6 / 100) (dur * (15 / 100));
               release = min (2 / 10) (dur * (3 / 10));
               sustainStart = startT + attack;
               releaseStart = startT + dur - release
           in push_node
                \<lparr> role = SampleSource, for_note = note_id n, frequency = None, modulation = [],
                  envelope =
                    [SetValueAtTime (1 / 1000) startT,
                     ExponentialRampToValueAtTime totalGain sustainStart,
                     SetValueAtTime totalGain sustainStart,
                     ExponentialRampToValueAtTime (max (totalGain * (85 / 100)) (1 / 1000)) releaseStart,
                     ExponentialRampToValueAtTime (1 / 1000) (startT + dur)],
                  start_at = startT, stop_at = startT + dur + 1 / 10, halted = False \<rparr>
                (if useVibrato then push_node (vibrato_lfo n 12 (1 / 10) startT dur) w else w))
        else
          push_node
            \<lparr> role = ToneOscillator, for_note = note_id n, frequency = pitchToFreq (pitch n),
              modulation = [],
              envelope =
                [SetValueAtTime (1 / 1000) startT,
                 ExponentialRampToValueAtTime (totalGain * (12 / 100)) (startT + 5 / 100),
                 SetValueAtTime (totalGain * (1 / 10)) (startT + dur - 1 / 10),
                 ExponentialRampToValueAtTime (1 / 1000) (startT + dur)],
              start_at = startT, stop_at = startT + dur + 5 / 100, halted = False \<rparr>
            (if useVibrato then push_node (vibrato_lfo n 3 (5 / 100) startT dur) w else w))"

subsection \<open>play\<close>

text \<open>The last measure, from \<open>fromMeasure\<close> on, that holds a note that is not a rest.\<close>

fun last_notes_measure :: "nat \<Rightarrow> score_note list \<Rightarrow> nat \<Rightarrow> nat" where
  "last_notes_measure fromMeasure [] lastM = lastM"
| "last_notes_measure fromMeasure (n # ns) lastM =
     last_notes_measure fromMeasure ns
       (if \<not> is_rest n \<and> note_measure n \<ge> fromMeasure \<and> note_measure n > lastM
        then note_measure n else lastM)"

text \<open>
  The two tables and the running total of the timing loop, and one round of it for the
  measure \<open>m\<close>.
\<close>

record timing =
  starts :: "nat \<rightharpoonup> real"
  spbs :: "nat \<rightharpoonup> real"
  cumTime :: real

definition measure_tempo :: "score_data \<Rightarrow> nat \<Rightarrow> int" where
  "measure_tempo scoreData m =
     (if eff_tempo (getEffectiveSignature m scoreData) \<noteq> 0
      then eff_tempo (getEffectiveSignature m scoreData)
      else score_tempo (score scoreData))"

definition measure_round :: "score_data \<Rightarrow> nat \<Rightarrow> timing \<Rightarrow> timing option" where
  "measure_round scoreData m tm =
     (case js_div 60 (real_of_int (measure_tempo scoreData m)) of
        None \<Rightarrow> None
      | Some mSecPerBeat \<Rightarrow>
          (case time_beats (eff_time (getEffectiveSignature m scoreData)) of
             None \<Rightarrow> None
           | Some mBeats \<Rightarrow>
               Some \<lparr> starts = (starts tm)(m \<mapsto> cumTime tm),
                      spbs = (spbs tm)(m \<mapsto> mSecPerBeat),
                      cumTime = cumTime tm + mBeats * mSecPerBeat \<rparr>))"

function measure_loop :: "score_data \<Rightarrow> nat \<Rightarrow> nat \<Rightarrow> timing \<Rightarrow> timing option" where
  "measure_loop scoreData m lastM tm =
     (if m \<le> lastM then
        (case measure_round scoreData m tm of
           None \<Rightarrow> None
         | Some tm' \<Rightarrow> measure_loop scoreData (Suc m) lastM tm')
      else Some tm)"
  by pat_completeness auto
termination
  by (relation "measure (\<lambda>(scoreData, m, lastM, tm). Suc lastM - m)") auto

declare measure_loop.simps [simp del]

text \<open>
  The guards of the scheduling loop.  A solo instrument is in force when the field is a
  non-empty text.
\<close>

definition skipped_by_solo :: "engine \<Rightarrow> score_note \<Rightarrow> bool" where
  "skipped_by_solo e n \<longleftrightarrow>
     (case soloInstrument e of None \<Rightarrow> False | Some s \<Rightarrow> s \<noteq> [] \<and> instrument_id n \<noteq> s)"

text \<open>Start time and duration of one note, from the tables of the engine.\<close>

definition note_timing :: "engine \<Rightarrow> score_data \<Rightarrow> score_note \<Rightarrow> (real \<times> real) option" where
  "note_timing e scoreData n =
     (let measureStart = number_or (measureStartTimes e (note_measure n)) 0 in
      case (case measureSecPerBeat e (note_measure n) of
              None \<Rightarrow> js_div 60 (real_of_int (score_tempo (score scoreData)))
            | Some v \<Rightarrow> if v = 0 then js_div 60 (real_of_int (score_tempo (score scoreData)))
                        else Some v) of
        None \<Rightarrow> None
      | Some secPerBeat \<Rightarrow>
          Some (startTime e + SCHEDULE_AHEAD + measureStart + (beat n - 1) * secPerBeat,
                number_or (DUR_TO_BEATS (duration n)) 1 * secPerBeat))"

text \<open>
  The scheduling loop, as the list of the calls \<^verbatim>\<open>_scheduleNote(note, noteStart, noteDur)\<close>
  it makes, in order.  The calls change none of the fields that the loop reads.
\<close>

fun schedule_calls ::
  "engine \<Rightarrow> score_data \<Rightarrow> nat \<Rightarrow> score_note list \<Rightarrow> (score_note \<times> real \<times> real) list option" where
  "schedule_calls e scoreData fromMeasure [] = Some []"
| "schedule_calls e scoreData fromMeasure (n # ns) =
     (if is_rest n then schedule_calls e scoreData fromMeasure ns
      else if note_measure n < fromMeasure then schedule_calls e scoreData fromMeasure ns
      else if skipped_by_solo e n then schedule_calls e scoreData fromMeasure ns
      else if instrument_id n \<in> mutedInstruments e then schedule_calls e scoreData fromMeasure ns
      else
        (case note_timing e scoreData n of
           None \<Rightarrow> None
         | Some (noteStart, noteDur) \<Rightarrow>
             (case schedule_calls e scoreData fromMeasure ns of
                None \<Rightarrow> None
              | Some calls \<Rightarrow> Some ((n, noteStart, noteDur) # calls))))"

definition perform_calls :: "(score_note \<times> real \<times> real) list \<Rightarrow> world \<Rightarrow> world" where
  "perform_calls calls w = foldl (\<lambda>w' (n, noteStart, noteDur). scheduleNote n noteStart noteDur w') w calls"

text \<open>\<^verbatim>\<open>_animateMeasure\<close>: the first frame is requested and its handle kept.\<close>

definition animateMeasure :: "world \<Rightarrow> world" where
  "animateMeasure w =
     w \<lparr> engine := (engine w) \<lparr> animFrame := Some (next_frame w) \<rparr>,
         frames := insert (next_frame w) (frames w),
         next_frame := Suc (next_frame w) \<rparr>"

text \<open>
  \<^verbatim>\<open>play\<close> up to its \<^verbatim>\<open>await\<close>: the previous session is stopped, the flags are
  set, the playable notes are selected and \<^verbatim>\<open>preload\<close> runs up to its own
  \<^verbatim>\<open>await Promise.all(jobs)\<close>.  The call is then suspended on those jobs.
\<close>

definition play_call :: "score_data \<Rightarrow> nat \<Rightarrow> world \<Rightarrow> world" where
  "play_call scoreData fromMeasure w =
     (let w1 = stop w;
          w2 = w1 \<lparr> engine := (engine w1) \<lparr> playing := True, loading := True,
                                          startMeasure := fromMeasure,
                                          engine_scoreData := Some scoreData \<rparr> \<rparr>;
          playable = filter (\<lambda>n. \<not> is_rest n \<and> note_measure n \<ge> fromMeasure) (score_notes scoreData)
      in case preload playable w2 of
           (jobs, w3) \<Rightarrow>
             w3 \<lparr> tasks := tasks w3 @
                    [\<lparr> task_scoreData = scoreData, task_fromMeasure = fromMeasure,
                       task_jobs = jobs, task_done = False \<rparr>] \<rparr>)"

text \<open>
  \<^verbatim>\<open>play\<close> after its \<^verbatim>\<open>await\<close>, first part: the session start is taken from
  the audio clock and the timing tables are computed and stored.  \<open>None\<close>: the timing
  left the finite numbers (a zero tempo, or a time signature whose first part is not a
  decimal numeral).
\<close>

definition play_prepare :: "score_data \<Rightarrow> nat \<Rightarrow> world \<Rightarrow> world option" where
  "play_prepare scoreData fromMeasure w =
     (let lastNotesMeasure = last_notes_measure fromMeasure (score_notes scoreData) fromMeasure in
      case measure_loop scoreData fromMeasure lastNotesMeasure
             \<lparr> starts = Map.empty, spbs = Map.empty, cumTime = 0 \<rparr> of
        None \<Rightarrow> None
      | Some tm \<Rightarrow>
          Some (w \<lparr> engine := (engine w) \<lparr> loading := False, startTime := currentTime w,
                                         lastPlayMeasure := Some lastNotesMeasure,
                                         measureStartTimes := starts tm,
                                         measureSecPerBeat := spbs tm,
                                         totalDuration := Some (cumTime tm) \<rparr> \<rparr>))"

text \<open>
  The whole continuation: nothing happens if the engine was stopped meanwhile; otherwise
  the tables are prepared, every call of the scheduling loop is performed and the
  playhead animation is started.
\<close>

definition play_continue :: "score_data \<Rightarrow> nat \<Rightarrow> world \<Rightarrow> world option" where
  "play_continue scoreData fromMeasure w =
     (if \<not> playing (engine w) then Some w
      else
        (case play_prepare scoreData fromMeasure w of
           None \<Rightarrow> None
         | Some w1 \<Rightarrow>
             (case schedule_calls (engine w1) scoreData fromMeasure (score_notes scoreData) of
                None \<Rightarrow> None
              | Some calls \<Rightarrow> Some (animateMeasure (perform_calls calls w1)))))"

subsection \<open>Executions\<close>

text \<open>
  The engine runs on one thread.  An execution is a sequence of events, each run to its
  end before the next: a call of \<^verbatim>\<open>play\<close> (up to its \<^verbatim>\<open>await\<close>), a load that
  settles, a suspended \<^verbatim>\<open>play\<close> that resumes, a call of \<^verbatim>\<open>stop\<close>,
  \<^verbatim>\<open>toggleMute\<close> or \<^verbatim>\<open>toggleSolo\<close>, and the audio clock advancing.  A suspended
  \<^verbatim>\<open>play\<close> can resume only when every job of its \<^verbatim>\<open>Promise.all\<close> has settled.
  The frame callback of \<^verbatim>\<open>_animateMeasure\<close> is not among the events.
\<close>

datatype event =
    Play score_data nat
  | Settle nat bool
  | Resume nat
  | Stop
  | ToggleMute string
  | ToggleSolo string
  | Clock real

definition jobs_settled :: "world \<Rightarrow> nat list \<Rightarrow> bool" where
  "jobs_settled w js \<longleftrightarrow>
     list_all (\<lambda>p. p < length (promises w) \<and> load_state (promises w ! p) \<noteq> InFlight) js"

definition resume :: "nat \<Rightarrow> world \<Rightarrow> world option" where
  "resume i w =
     (if i < length (tasks w) \<and> \<not> task_done (tasks w ! i)
         \<and> jobs_settled w (task_jobs (tasks w ! i))
      then play_continue (task_scoreData (tasks w ! i)) (task_fromMeasure (tasks w ! i))
             (w \<lparr> tasks := (tasks w)[i := (tasks w ! i) \<lparr> task_done := True \<rparr>] \<rparr>)
      else None)"

fun step :: "event \<Rightarrow> world \<Rightarrow> world option" where
  "step (Play scoreData fromMeasure) w = Some (play_call scoreData fromMeasure w)"
| "step (Settle p ok) w = load_settle p ok w"
| "step (Resume i) w = resume i w"
| "step Stop w = Some (stop w)"
| "step (ToggleMute i) w = Some (w \<lparr> engine := toggleMute i (engine w) \<rparr>)"
| "step (ToggleSolo i) w = Some (w \<lparr> engine := toggleSolo i (engine w) \<rparr>)"
| "step (Clock t) w = (if currentTime w \<le> t then Some (w \<lparr> currentTime := t \<rparr>) else None)"

fun run :: "event list \<Rightarrow> world \<Rightarrow> world option" where
  "run [] w = Some w"
| "run (ev # evs) w = (case step ev w of None \<Rightarrow> None | Some w' \<Rightarrow> run evs w')"

section \<open>Notions used in the statements\<close>

text \<open>
  Seconds per beat of a measure, from the tempo in force there, and the condition under
  which the timing loop stays within the finite numbers on the measures \<open>fromM\<close> to
  \<open>lastM\<close>: no tempo is zero and every time signature starts with a decimal numeral,
  whose value is called \<open>B k\<close>.
\<close>

definition seconds_per_beat :: "score_data \<Rightarrow> nat \<Rightarrow> real" where
  "seconds_per_beat sd k = 60 / real_of_int (measure_tempo sd k)"

definition finite_timing :: "score_data \<Rightarrow> nat \<Rightarrow> nat \<Rightarrow> (nat \<Rightarrow> real) \<Rightarrow> bool" where
  "finite_timing sd fromM lastM B \<longleftrightarrow>
     (\<forall>k. fromM \<le> k \<and> k \<le> lastM \<longrightarrow>
        measure_tempo sd k \<noteq> 0 \<and> time_beats (eff_time (getEffectiveSignature k sd)) = Some (B k))"

text \<open>The number of requests sent so far for a cache key.\<close>

definition fetch_count :: "world \<Rightarrow> string \<Rightarrow> nat" where
  "fetch_count w k = length (filter (\<lambda>q. load_key q = k) (promises w))"

text \<open>
  Three facts that hold in every world an execution reaches: an entry of the in-flight
  table points to a promise for that key that is still in flight; a promise that settled
  with success left its key in the cache; and every suspended \<^verbatim>\<open>play\<close> has, for
  each of its playable notes, the sample in the cache or a job for it.
\<close>

definition pending_ok :: "world \<Rightarrow> bool" where
  "pending_ok w \<longleftrightarrow>
     (\<forall>k p. pending w k = Some p \<longrightarrow>
        p < length (promises w) \<and> load_key (promises w ! p) = k
        \<and> load_state (promises w ! p) = InFlight)"

definition settled_cached :: "world \<Rightarrow> bool" where
  "settled_cached w \<longleftrightarrow>
     (\<forall>p < length (promises w).
        load_state (promises w ! p) = Settled True \<longrightarrow> load_key (promises w ! p) \<in> cache w)"

definition task_covered :: "world \<Rightarrow> play_task \<Rightarrow> bool" where
  "task_covered w t \<longleftrightarrow>
     (\<forall>n \<in> set (score_notes (task_scoreData t)).
        \<not> is_rest n \<and> task_fromMeasure t \<le> note_measure n \<longrightarrow>
        note_cache_key n \<in> cache w \<or>
        (\<exists>p \<in> set (task_jobs t). p < length (promises w) \<and>
            load_key (promises w ! p) = note_cache_key n))"

definition preload_inv :: "world \<Rightarrow> bool" where
  "preload_inv w \<longleftrightarrow>
     pending_ok w \<and> settled_cached w \<and> (\<forall>t \<in> set (tasks w). task_covered w t)"

section \<open>Example data\<close>

text \<open>The world an execution from the fresh engine ends in.\<close>

definition world_after :: "event list \<Rightarrow> world" where
  "world_after evs = (case run evs new_world of Some w \<Rightarrow> w | None \<Rightarrow> new_world)"

definition db_with_override :: server_db where
  "db_with_override =
     \<lparr> total_measures = 32,
       measure_signatures =
         [5 \<mapsto> \<lparr> key_signature = Some ''G'', time_signature = Some ''3/4'', tempo = None \<rparr>] \<rparr>"

definition tempo_only :: put_body where
  "tempo_only = \<lparr> req_key_signature = None, req_time_signature = None, req_tempo = Some 120 \<rparr>"

text \<open>A quarter note at beat 2.5 of measure 1, and the same note with vibrato.\<close>

definition first_violin_note :: score_note where
  "first_violin_note =
     \<lparr> note_id = ''n1'', instrument_id = ''violin1'', pitch = ''A4'', note_measure = 1,
       beat = 5 / 2, duration = ''quarter'', is_rest = False, dynamic = Some ''mf'', vibrato = 0 \<rparr>"

definition vibrato_note :: score_note where
  "vibrato_note = first_violin_note \<lparr> note_id := ''n2'', vibrato := 1 \<rparr>"

definition cello_note :: score_note where
  "cello_note =
     \<lparr> note_id = ''c1'', instrument_id = ''cello'', pitch = ''C3'', note_measure = 1,
       beat = 1, duration = ''half'', is_rest = False, dynamic = Some ''f'', vibrato = 0 \<rparr>"

text \<open>One measure of 4/4 at 120 beats per minute.\<close>

definition base_score :: score where
  "base_score =
     \<lparr> title = ''Global Symphonia No. 1'', score_key_signature = ''D'',
       score_time_signature = ''4/4'', score_tempo = 120, score_total_measures = 32 \<rparr>"

definition one_note_score :: score_data where
  "one_note_score =
     \<lparr> score = base_score, score_notes = [first_violin_note], measureSignatures = [] \<rparr>"

definition cello_score :: score_data where
  "cello_score = \<lparr> score = base_score, score_notes = [cello_note], measureSignatures = [] \<rparr>"

definition duo_score :: score_data where
  "duo_score =
     \<lparr> score = base_score, score_notes = [first_violin_note, cello_note], measureSignatures = [] \<rparr>"



text \<open>An engine with the first violin both solo and muted.\<close>

definition solo_muted_engine :: engine where
  "solo_muted_engine =
     toggleMute ''violin1'' (toggleSolo ''violin1'' new_engine)"

definition solo_engine :: engine where
  "solo_engine = toggleSolo ''violin1'' new_engine"

section \<open>Properties\<close>

subsection \<open>Pitch parsing\<close>

lemma pitch_match_None_iff: "pitch_match p = None \<longleftrightarrow> \<not> well_formed_pitch p"
  by (induction p rule: pitch_match.induct) (auto simp: well_formed_pitch_def)

lemma pitch_match_Some_letter:
  "pitch_match p = Some (l, a, d) \<Longrightarrow> is_note_letter l"
  by (induction p rule: pitch_match.induct) (auto split: if_splits)

lemma NOTE_SEMITONES_defined: "is_note_letter l \<Longrightarrow> NOTE_SEMITONES l \<noteq> None"
  by (auto simp: is_note_letter_def NOTE_SEMITONES_def)

lemma pitchToFreq_defined: "pitchToFreq p \<noteq> None"
proof (cases "pitch_match p")
  case None
  then show ?thesis by (simp add: pitchToFreq_def)
next
  case (Some m)
  obtain l a d where m: "m = (l, a, d)" by (cases m)
  with Some have "is_note_letter l" by (auto dest: pitch_match_Some_letter)
  then obtain b where "NOTE_SEMITONES l = Some b"
    using NOTE_SEMITONES_defined by blast
  with Some m show ?thesis by (simp add: pitchToFreq_def pitchSemitones_def)
qed

text \<open>
  Claim C9.  For every input string the two pitch functions return a value:
  \<open>pitchToFreq\<close> never yields the undefined-number result, and a string that is not a
  letter A to G, an optional sharp or flat and one octave digit gives the fallback
  sample key \<open>C4\<close> and the fallback frequency 440 Hz.
\<close>

theorem pitch_fallback_total:
  "pitchToFreq p \<noteq> None \<and>
   (\<not> well_formed_pitch p \<longrightarrow> pitchToSampleKey p = ''C4'' \<and> pitchToFreq p = Some 440)"
  using pitchToFreq_defined [of p] pitch_match_None_iff [of p]
  by (auto simp: pitchToSampleKey_def pitchToFreq_def)

theorem pitch_fallback_total_witness:
  "\<not> well_formed_pitch ''H#4'' \<and> pitchToSampleKey ''H#4'' = ''C4'' \<and>
   pitchToFreq ''H#4'' = Some 440"
proof -
  have nw: "\<not> well_formed_pitch ''H#4''"
    by (simp add: well_formed_pitch_def is_note_letter_def)
  with pitch_fallback_total [of "''H#4''"] show ?thesis by blast
qed

subsection \<open>The measure-signature upsert\<close>

text \<open>
  Claim C10.  A request that the handler accepts stores a whole new row for the measure:
  each text field is the field of the request, or \<open>NULL\<close> when the request omits it or
  gives the empty text, and the tempo is the tempo of the request, or \<open>NULL\<close> when it is
  omitted.  Nothing of the row stored before remains.
\<close>

theorem put_replaces_all_fields:
  assumes "1 \<le> m" and "m \<le> total_measures db"
    and "\<forall>t. req_tempo body = Some t \<longrightarrow> 20 \<le> t \<and> t \<le> 300"
  shows "\<exists>row. put_measure_signature db m body =
                  (Json (m, row), db \<lparr> measure_signatures := (measure_signatures db)(m \<mapsto> row) \<rparr>) \<and>
           key_signature row =
             (if req_key_signature body = None \<or> req_key_signature body = Some []
              then None else req_key_signature body) \<and>
           time_signature row =
             (if req_time_signature body = None \<or> req_time_signature body = Some []
              then None else req_time_signature body) \<and>
           tempo row = req_tempo body"
proof -
  have ok: "\<not> (case req_tempo body of None \<Rightarrow> False | Some t \<Rightarrow> t < 20 \<or> t > 300)"
    using assms(3) by (auto split: option.splits)
  have nz: "number_or_null (req_tempo body) = req_tempo body"
    using assms(3) by (auto simp: number_or_null_def split: option.splits)
  show ?thesis
    using assms(1,2) ok nz
    by (auto simp: put_measure_signature_def Let_def text_or_null_def split: option.splits)
qed

theorem put_replaces_all_fields_witness:
  "measure_signatures db_with_override 5 =
     Some \<lparr> key_signature = Some ''G'', time_signature = Some ''3/4'', tempo = None \<rparr> \<and>
   measure_signatures (snd (put_measure_signature db_with_override 5 tempo_only)) 5 =
     Some \<lparr> key_signature = None, time_signature = None, tempo = Some 120 \<rparr>"
proof -
  have "(1::int) \<le> 5" "(5::int) \<le> total_measures db_with_override"
    "\<forall>t. req_tempo tempo_only = Some t \<longrightarrow> 20 \<le> t \<and> t \<le> 300"
    by (simp_all add: db_with_override_def tempo_only_def)
  from put_replaces_all_fields [OF this]
  have "measure_signatures (snd (put_measure_signature db_with_override 5 tempo_only)) 5 =
     Some \<lparr> key_signature = None, time_signature = None, tempo = Some 120 \<rparr>"
    by (auto simp: tempo_only_def)
  then show ?thesis by (simp add: db_with_override_def)
qed

subsection \<open>stop\<close>

lemma length_fold_halt_node: "length (fold halt_node is ns) = length ns"
  by (induction "is" arbitrary: ns) (auto simp: halt_node_def)

lemma halted_fold_halt_node:
  "i < length ns \<Longrightarrow> halted (fold halt_node is ns ! i) \<longleftrightarrow> i \<in> set is \<or> halted (ns ! i)"
proof (induction "is" arbitrary: ns)
  case Nil
  then show ?case by simp
next
  case (Cons j js)
  have "length (halt_node j ns) = length ns" by (simp add: halt_node_def)
  with Cons have "halted (fold halt_node js (halt_node j ns) ! i) \<longleftrightarrow>
      i \<in> set js \<or> halted (halt_node j ns ! i)"
    by simp
  moreover have "halted (halt_node j ns ! i) \<longleftrightarrow> i = j \<or> halted (ns ! i)"
    using Cons.prems by (auto simp: halt_node_def nth_list_update)
  ultimately show ?case by auto
qed

lemma world_after_run: "run evs new_world \<noteq> None \<Longrightarrow> run evs new_world = Some (world_after evs)"
  by (auto simp: world_after_def)

text \<open>
  Claim C7.  \<open>stop\<close> is a total function on worlds: a node that refuses to stop is
  ignored, so nothing is raised.  A second \<open>stop\<close> changes nothing but to tell a
  registered tick callback once more that playback is stopped, and so does a \<open>stop\<close> on
  an engine that has no session.  After \<open>stop\<close> every node that was recorded is halted,
  the frame request of the playhead loop is withdrawn, and the engine is idle.
\<close>

theorem stop_idempotent:
  "stop (stop w) =
     (stop w) \<lparr> emitted := emitted (stop w) @ (if onPlaybackTick (engine w) then [TickStopped] else []) \<rparr> \<and>
   (\<not> playing (engine w) \<and> \<not> loading (engine w) \<and> scheduledNodes (engine w) = []
      \<and> animFrame (engine w) = None \<longrightarrow>
    stop w = w \<lparr> emitted := emitted w @ (if onPlaybackTick (engine w) then [TickStopped] else []) \<rparr>) \<and>
   (\<forall>i \<in> set (scheduledNodes (engine w)). i < length (nodes w) \<longrightarrow> halted (nodes (stop w) ! i)) \<and>
   (\<forall>h. animFrame (engine w) = Some h \<longrightarrow> h \<notin> frames (stop w)) \<and>
   scheduledNodes (engine (stop w)) = [] \<and> animFrame (engine (stop w)) = None \<and>
   \<not> playing (engine (stop w)) \<and> \<not> loading (engine (stop w))"
proof -
  have "\<forall>i \<in> set (scheduledNodes (engine w)). i < length (nodes w) \<longrightarrow> halted (nodes (stop w) ! i)"
    by (simp add: stop_def halted_fold_halt_node)
  then show ?thesis
    by (simp add: stop_def)
qed

theorem stop_idempotent_witness:
  "stop new_world = new_world \<and>
   scheduledNodes (engine (world_after [Play one_note_score 1, Settle 0 True, Resume 0])) = [0] \<and>
   animFrame (engine (world_after [Play one_note_score 1, Settle 0 True, Resume 0])) = Some 1 \<and>
   halted (nodes (stop (world_after [Play one_note_score 1, Settle 0 True, Resume 0])) ! 0) \<and>
   1 \<notin> frames (stop (world_after [Play one_note_score 1, Settle 0 True, Resume 0]))"
proof -
  let ?w = "world_after [Play one_note_score 1, Settle 0 True, Resume 0]"
  have idle: "\<not> playing (engine new_world) \<and> \<not> loading (engine new_world)
      \<and> scheduledNodes (engine new_world) = [] \<and> animFrame (engine new_world) = None"
    and quiet: "\<not> onPlaybackTick (engine new_world)"
    by (simp_all add: new_world_def new_engine_def)
  have sn: "scheduledNodes (engine ?w) = [0]" by code_simp
  have af: "animFrame (engine ?w) = Some 1" by code_simp
  have ln: "length (nodes ?w) = 1" by code_simp
  from stop_idempotent [of new_world] idle quiet have "stop new_world = new_world" by simp
  moreover from stop_idempotent [of ?w] sn ln have "halted (nodes (stop ?w) ! 0)" by simp
  moreover from stop_idempotent [of ?w] af have "1 \<notin> frames (stop ?w)" by blast
  ultimately show ?thesis using sn af by simp
qed

subsection \<open>Vibrato\<close>

lemma nodes_push_node: "nodes (push_node nd w) = nodes w @ [nd]"
  by (simp add: push_node_def)

text \<open>
  Claim C8.  Among the nodes that scheduling one note adds to the audio context there is
  no vibrato oscillator unless the vibrato flag of the note is 1.  When it is 1 there is
  exactly one; its depth is set to 0 at the start of the note and ramped linearly to the
  full depth (12 for a sample, 3 for a synthesized tone), which it reaches 0.4 s or half
  the duration after the start, whichever comes first; for a note of positive duration
  that is after the start.
\<close>

theorem vibrato_only_when_enabled:
  "(vibrato n \<noteq> 1 \<longrightarrow>
      filter (\<lambda>nd. role nd = VibratoLfo)
        (drop (length (nodes w)) (nodes (scheduleNote n startT dur w))) = []) \<and>
   (vibrato n = 1 \<longrightarrow>
      (\<exists>lfo depth rampEnd.
         filter (\<lambda>nd. role nd = VibratoLfo)
           (drop (length (nodes w)) (nodes (scheduleNote n startT dur w))) = [lfo] \<and>
         modulation lfo = [SetValueAtTime 0 startT, LinearRampToValueAtTime depth rampEnd] \<and>
         depth = (if samples_get w (instrument_id n) (pitch n) then 12 else 3) \<and>
         rampEnd = startT + min (4 / 10) (dur * (5 / 10)) \<and>
         (0 < dur \<longrightarrow> startT < rampEnd)))"
  by (simp add: scheduleNote_def Let_def nodes_push_node vibrato_lfo_def)

theorem vibrato_only_when_enabled_witness:
  "vibrato first_violin_note \<noteq> 1 \<and>
   filter (\<lambda>nd. role nd = VibratoLfo) (nodes (scheduleNote first_violin_note 1 (1 / 2) new_world)) = [] \<and>
   vibrato vibrato_note = 1 \<and>
   map modulation (filter (\<lambda>nd. role nd = VibratoLfo)
       (nodes (scheduleNote vibrato_note 1 (1 / 2) new_world))) =
     [[SetValueAtTime 0 1, LinearRampToValueAtTime 3 (5 / 4)]]"
proof -
  have off: "vibrato first_violin_note \<noteq> 1" and on: "vibrato vibrato_note = 1"
    by (simp_all add: first_violin_note_def vibrato_note_def)
  have empty: "nodes new_world = []" and nosample: "\<not> samples_get new_world i p" for i p
    by (simp_all add: new_world_def samples_get_def)
  have pos: "(0::real) < 1 / 2" by simp
  from vibrato_only_when_enabled [of first_violin_note new_world 1 "1 / 2"] off empty
  have "filter (\<lambda>nd. role nd = VibratoLfo)
      (nodes (scheduleNote first_violin_note 1 (1 / 2) new_world)) = []"
    by simp
  moreover from vibrato_only_when_enabled [of vibrato_note new_world 1 "1 / 2"] on empty nosample pos
  have "map modulation (filter (\<lambda>nd. role nd = VibratoLfo)
       (nodes (scheduleNote vibrato_note 1 (1 / 2) new_world))) =
     [[SetValueAtTime 0 1, LinearRampToValueAtTime 3 (5 / 4)]]"
    by auto
  ultimately show ?thesis using off on by simp
qed

subsection \<open>Solo and mute\<close>

lemma schedule_calls_notes:
  "schedule_calls e sd fromM ns = Some calls \<Longrightarrow>
   map fst calls =
     filter (\<lambda>n. \<not> is_rest n \<and> fromM \<le> note_measure n \<and> \<not> skipped_by_solo e n
                 \<and> instrument_id n \<notin> mutedInstruments e) ns"
proof (induction ns arbitrary: calls)
  case Nil
  then show ?case by simp
next
  case (Cons n ns)
  then show ?case
    by (auto split: if_splits option.splits)
qed

text \<open>
  Claim C2, as stated, fails: with the first violin both solo and muted, a playable
  note of the first violin is in the score and the engine schedules nothing.
\<close>

theorem solo_muted_counterexample:
  "soloInstrument solo_muted_engine = Some (instrument_id first_violin_note) \<and>
   instrument_id first_violin_note \<in> mutedInstruments solo_muted_engine \<and>
   first_violin_note \<in> set (score_notes one_note_score) \<and>
   \<not> is_rest first_violin_note \<and> 1 \<le> note_measure first_violin_note \<and>
   schedule_calls solo_muted_engine one_note_score 1 (score_notes one_note_score) = Some []"
  by (simp add: solo_muted_engine_def toggleMute_def toggleSolo_def first_violin_note_def
      one_note_score_def new_engine_def skipped_by_solo_def)

text \<open>
  Claim C2, amended.  When a solo instrument is set, the notes scheduled are exactly the
  playable notes of that instrument if it is not muted, in the order of the score, and
  none at all if it is muted; the notes of every other instrument are skipped.
\<close>

theorem solo_filter:
  assumes "soloInstrument e = Some s" and "s \<noteq> []"
    and "schedule_calls e sd fromM ns = Some calls"
  shows "map fst calls =
           filter (\<lambda>n. \<not> is_rest n \<and> fromM \<le> note_measure n \<and> instrument_id n = s
                       \<and> s \<notin> mutedInstruments e) ns"
proof -
  have "\<And>n. (\<not> skipped_by_solo e n \<and> instrument_id n \<notin> mutedInstruments e) \<longleftrightarrow>
      (instrument_id n = s \<and> s \<notin> mutedInstruments e)"
    using assms(1,2) by (auto simp: skipped_by_solo_def)
  with schedule_calls_notes [OF assms(3)] show ?thesis by simp
qed

theorem solo_filter_witness:
  "soloInstrument solo_engine = Some ''violin1'' \<and> ''violin1'' \<noteq> [] \<and>
   (\<exists>calls. schedule_calls solo_engine duo_score 1 (score_notes duo_score) = Some calls \<and>
      map fst calls = [first_violin_note])"
proof -
  have solo: "soloInstrument solo_engine = Some ''violin1''" and ne: "''violin1'' \<noteq> []"
    by (simp_all add: solo_engine_def toggleSolo_def new_engine_def)
  have "schedule_calls solo_engine duo_score 1 (score_notes duo_score) \<noteq> None"
    by code_simp
  then obtain calls where
    calls: "schedule_calls solo_engine duo_score 1 (score_notes duo_score) = Some calls"
    by blast
  from solo_filter [OF solo ne calls]
  have "map fst calls = [first_violin_note]"
    by (simp add: duo_score_def first_violin_note_def cello_note_def solo_engine_def
        toggleSolo_def new_engine_def)
  with calls have "\<exists>calls. schedule_calls solo_engine duo_score 1 (score_notes duo_score) = Some calls \<and>
      map fst calls = [first_violin_note]"
    by simp
  with solo ne show ?thesis by simp
qed

subsection \<open>Timing tables and note times\<close>

lemma measure_round_finite:
  assumes "measure_tempo sd m \<noteq> 0"
    and "time_beats (eff_time (getEffectiveSignature m sd)) = Some b"
  shows "measure_round sd m tm =
           Some \<lparr> starts = (starts tm)(m \<mapsto> cumTime tm),
                  spbs = (spbs tm)(m \<mapsto> seconds_per_beat sd m),
                  cumTime = cumTime tm + b * seconds_per_beat sd m \<rparr>"
  using assms by (simp add: measure_round_def js_div_def seconds_per_beat_def)

lemma measure_loop_tables:
  "finite_timing sd m lastM B \<Longrightarrow>
   \<exists>tm'. measure_loop sd m lastM tm = Some tm' \<and>
     (\<forall>k. starts tm' k =
        (if m \<le> k \<and> k \<le> lastM
         then Some (cumTime tm + (\<Sum>j = m..<k. B j * seconds_per_beat sd j))
         else starts tm k)) \<and>
     (\<forall>k. spbs tm' k =
        (if m \<le> k \<and> k \<le> lastM then Some (seconds_per_beat sd k) else spbs tm k)) \<and>
     cumTime tm' = cumTime tm + (\<Sum>j = m..<Suc lastM. B j * seconds_per_beat sd j)"
proof (induction sd m lastM tm rule: measure_loop.induct)
  case (1 sd m lastM tm)
  show ?case
  proof (cases "m \<le> lastM")
    case False
    then show ?thesis
      by (auto simp: measure_loop.simps [of sd m lastM tm])
  next
    case True
    define tm1 where "tm1 = \<lparr> starts = (starts tm)(m \<mapsto> cumTime tm),
      spbs = (spbs tm)(m \<mapsto> seconds_per_beat sd m),
      cumTime = cumTime tm + B m * seconds_per_beat sd m \<rparr>"
    from "1.prems" True have round: "measure_round sd m tm = Some tm1"
      unfolding tm1_def by (intro measure_round_finite) (auto simp: finite_timing_def)
    from "1.prems" have "finite_timing sd (Suc m) lastM B"
      by (simp add: finite_timing_def)
    from "1.IH" [OF True round this]
    obtain tm' where loop: "measure_loop sd (Suc m) lastM tm1 = Some tm'"
      and st: "\<And>k. starts tm' k =
        (if Suc m \<le> k \<and> k \<le> lastM
         then Some (cumTime tm1 + (\<Sum>j = Suc m..<k. B j * seconds_per_beat sd j))
         else starts tm1 k)"
      and sp: "\<And>k. spbs tm' k =
        (if Suc m \<le> k \<and> k \<le> lastM then Some (seconds_per_beat sd k) else spbs tm1 k)"
      and cu: "cumTime tm' = cumTime tm1 + (\<Sum>j = Suc m..<Suc lastM. B j * seconds_per_beat sd j)"
      by blast
    have eq: "measure_loop sd m lastM tm = Some tm'"
      using True round loop by (simp add: measure_loop.simps [of sd m lastM tm])
    have split: "\<And>k. m < k \<Longrightarrow>
        (\<Sum>j = m..<k. B j * seconds_per_beat sd j) =
        B m * seconds_per_beat sd m + (\<Sum>j = Suc m..<k. B j * seconds_per_beat sd j)"
      by (simp add: sum.atLeast_Suc_lessThan)
    have "\<And>k. starts tm' k =
        (if m \<le> k \<and> k \<le> lastM
         then Some (cumTime tm + (\<Sum>j = m..<k. B j * seconds_per_beat sd j))
         else starts tm k)"
    proof -
      fix k
      show "starts tm' k =
        (if m \<le> k \<and> k \<le> lastM
         then Some (cumTime tm + (\<Sum>j = m..<k. B j * seconds_per_beat sd j))
         else starts tm k)"
      proof (cases "m < k")
        case True
        then show ?thesis using st [of k] split [of k] by (simp add: tm1_def)
      next
        case False
        then show ?thesis using st [of k] \<open>m \<le> lastM\<close> by (auto simp: tm1_def)
      qed
    qed
    moreover have "\<And>k. spbs tm' k =
        (if m \<le> k \<and> k \<le> lastM then Some (seconds_per_beat sd k) else spbs tm k)"
      using sp \<open>m \<le> lastM\<close> by (auto simp: tm1_def)
    moreover have "cumTime tm' = cumTime tm + (\<Sum>j = m..<Suc lastM. B j * seconds_per_beat sd j)"
      using cu split [of "Suc lastM"] True by (simp add: tm1_def)
    ultimately show ?thesis using eq by blast
  qed
qed

lemma play_prepare_tables:
  assumes "finite_timing sd fromM (last_notes_measure fromM (score_notes sd) fromM) B"
  shows "\<exists>w1. play_prepare sd fromM w = Some w1 \<and>
     startTime (engine w1) = currentTime w \<and>
     mutedInstruments (engine w1) = mutedInstruments (engine w) \<and>
     soloInstrument (engine w1) = soloInstrument (engine w) \<and>
     (\<forall>k. measureStartTimes (engine w1) k =
        (if fromM \<le> k \<and> k \<le> last_notes_measure fromM (score_notes sd) fromM
         then Some (\<Sum>j = fromM..<k. B j * seconds_per_beat sd j) else None)) \<and>
     (\<forall>k. measureSecPerBeat (engine w1) k =
        (if fromM \<le> k \<and> k \<le> last_notes_measure fromM (score_notes sd) fromM
         then Some (seconds_per_beat sd k) else None)) \<and>
     totalDuration (engine w1) =
       Some (\<Sum>j = fromM..<Suc (last_notes_measure fromM (score_notes sd) fromM).
               B j * seconds_per_beat sd j)"
proof -
  from measure_loop_tables [OF assms, of "\<lparr> starts = Map.empty, spbs = Map.empty, cumTime = 0 \<rparr>"]
  obtain tm where "measure_loop sd fromM (last_notes_measure fromM (score_notes sd) fromM)
        \<lparr> starts = Map.empty, spbs = Map.empty, cumTime = 0 \<rparr> = Some tm"
    and "\<And>k. starts tm k =
        (if fromM \<le> k \<and> k \<le> last_notes_measure fromM (score_notes sd) fromM
         then Some (\<Sum>j = fromM..<k. B j * seconds_per_beat sd j) else None)"
    and "\<And>k. spbs tm k =
        (if fromM \<le> k \<and> k \<le> last_notes_measure fromM (score_notes sd) fromM
         then Some (seconds_per_beat sd k) else None)"
    and "cumTime tm = (\<Sum>j = fromM..<Suc (last_notes_measure fromM (score_notes sd) fromM).
               B j * seconds_per_beat sd j)"
    by auto
  then show ?thesis
    by (simp add: play_prepare_def Let_def)
qed


lemma last_notes_measure_lower: "lastM \<le> last_notes_measure fromM ns lastM"
proof (induction ns arbitrary: lastM)
  case Nil
  then show ?case by simp
next
  case (Cons n ns)
  have "lastM \<le> (if \<not> is_rest n \<and> note_measure n \<ge> fromM \<and> note_measure n > lastM
        then note_measure n else lastM)"
    by simp
  also have "\<dots> \<le> last_notes_measure fromM (n # ns) lastM"
    using Cons.IH by simp
  finally show ?case .
qed

lemma last_notes_measure_upper:
  "n \<in> set ns \<Longrightarrow> \<not> is_rest n \<Longrightarrow> fromM \<le> note_measure n \<Longrightarrow>
   note_measure n \<le> last_notes_measure fromM ns lastM"
proof (induction ns arbitrary: lastM)
  case Nil
  then show ?case by simp
next
  case (Cons x xs)
  show ?case
  proof (cases "n = x")
    case True
    let ?l = "if \<not> is_rest x \<and> note_measure x \<ge> fromM \<and> note_measure x > lastM
        then note_measure x else lastM"
    have "note_measure n \<le> ?l" using True Cons.prems by simp
    also have "?l \<le> last_notes_measure fromM xs ?l" by (rule last_notes_measure_lower)
    finally show ?thesis by simp
  next
    case False
    with Cons.prems have "n \<in> set xs" by simp
    from Cons.IH [OF this Cons.prems(2,3)] show ?thesis by simp
  qed
qed

lemma DUR_TO_BEATS_nonzero: "DUR_TO_BEATS d = Some b \<Longrightarrow> b \<noteq> 0"
  by (auto simp: DUR_TO_BEATS_def split: if_splits)

lemma schedule_calls_timed:
  assumes "\<forall>n \<in> set ns. \<not> is_rest n \<and> fromM \<le> note_measure n \<longrightarrow> note_timing e sd n \<noteq> None"
  shows "\<exists>calls. schedule_calls e sd fromM ns = Some calls \<and>
           (\<forall>(n, noteStart, noteDur) \<in> set calls.
               n \<in> set ns \<and> \<not> is_rest n \<and> fromM \<le> note_measure n \<and>
               note_timing e sd n = Some (noteStart, noteDur))"
  using assms
proof (induction ns)
  case Nil
  then show ?case by simp
next
  case (Cons n ns)
  then obtain calls where calls: "schedule_calls e sd fromM ns = Some calls"
    and each: "\<forall>(n, noteStart, noteDur) \<in> set calls.
               n \<in> set ns \<and> \<not> is_rest n \<and> fromM \<le> note_measure n \<and>
               note_timing e sd n = Some (noteStart, noteDur)"
    by auto
  show ?case
  proof (cases "is_rest n \<or> note_measure n < fromM \<or> skipped_by_solo e n
                \<or> instrument_id n \<in> mutedInstruments e")
    case True
    with calls each show ?thesis by auto
  next
    case False
    with Cons.prems obtain st d where "note_timing e sd n = Some (st, d)"
      by fastforce
    with False calls each show ?thesis by auto
  qed
qed




lemma one_note_last: "last_notes_measure 1 (score_notes one_note_score) 1 = 1"
  by (simp add: one_note_score_def first_violin_note_def)

lemma one_note_finite: "finite_timing one_note_score 1 1 (\<lambda>k. 4)"
  unfolding finite_timing_def
proof (intro allI impI)
  fix k :: nat
  assume "1 \<le> k \<and> k \<le> 1"
  then have k: "k = 1" by arith
  have "measure_tempo one_note_score 1 \<noteq> 0 \<and>
      time_beats (eff_time (getEffectiveSignature 1 one_note_score)) = Some 4"
    by code_simp
  with k show "measure_tempo one_note_score k \<noteq> 0 \<and>
      time_beats (eff_time (getEffectiveSignature k one_note_score)) = Some 4"
    by simp
qed



text \<open>
  Claim C4.  Under the same condition \<open>play\<close> schedules its notes, and for every call
  of \<open>_scheduleNote\<close> the start time is the session start plus \<open>SCHEDULE_AHEAD\<close> plus the
  table entry of the measure of the note plus (beat - 1) times the seconds per beat of
  that measure, and the duration is the beat count of the duration class times the
  seconds per beat.  A note at beat 2.5 of the first measure played, at 120 beats per
  minute, starts 0.75 s after session start plus \<open>SCHEDULE_AHEAD\<close>.
\<close>

theorem scheduled_note_times:
  assumes fin: "finite_timing sd fromM (last_notes_measure fromM (score_notes sd) fromM) B"
  shows "\<exists>w1 calls. play_prepare sd fromM w = Some w1 \<and>
     startTime (engine w1) = currentTime w \<and>
     schedule_calls (engine w1) sd fromM (score_notes sd) = Some calls \<and>
     (\<forall>(n, noteStart, noteDur) \<in> set calls.
        (\<exists>cumStart secPerBeat.
           measureStartTimes (engine w1) (note_measure n) = Some cumStart \<and>
           measureSecPerBeat (engine w1) (note_measure n) = Some secPerBeat \<and>
           cumStart = (\<Sum>j = fromM..<note_measure n. B j * seconds_per_beat sd j) \<and>
           secPerBeat = seconds_per_beat sd (note_measure n) \<and>
           noteStart = startTime (engine w1) + SCHEDULE_AHEAD + cumStart + (beat n - 1) * secPerBeat \<and>
           (\<forall>b. DUR_TO_BEATS (duration n) = Some b \<longrightarrow> noteDur = b * secPerBeat)) \<and>
        (note_measure n = fromM \<and> measure_tempo sd fromM = 120 \<and> beat n = 5 / 2 \<longrightarrow>
           noteStart = startTime (engine w1) + SCHEDULE_AHEAD + 75 / 100))"
proof -
  let ?L = "last_notes_measure fromM (score_notes sd) fromM"
  let ?f = "\<lambda>j. B j * seconds_per_beat sd j"
  from play_prepare_tables [OF fin, of w]
  obtain w1 where prep: "play_prepare sd fromM w = Some w1"
    and start: "startTime (engine w1) = currentTime w"
    and st: "\<And>k. measureStartTimes (engine w1) k =
        (if fromM \<le> k \<and> k \<le> ?L then Some (\<Sum>j = fromM..<k. ?f j) else None)"
    and sp: "\<And>k. measureSecPerBeat (engine w1) k =
        (if fromM \<le> k \<and> k \<le> ?L then Some (seconds_per_beat sd k) else None)"
    by blast
  have nz: "seconds_per_beat sd k \<noteq> 0" if "fromM \<le> k" "k \<le> ?L" for k
    using fin that by (simp add: finite_timing_def seconds_per_beat_def)
  have timing: "note_timing (engine w1) sd n =
      Some (startTime (engine w1) + SCHEDULE_AHEAD + (\<Sum>j = fromM..<note_measure n. ?f j)
              + (beat n - 1) * seconds_per_beat sd (note_measure n),
            number_or (DUR_TO_BEATS (duration n)) 1 * seconds_per_beat sd (note_measure n))"
    if "n \<in> set (score_notes sd)" "\<not> is_rest n" "fromM \<le> note_measure n" for n
  proof -
    from that have le: "note_measure n \<le> ?L" by (rule last_notes_measure_upper)
    with that nz have "seconds_per_beat sd (note_measure n) \<noteq> 0" by simp
    with le that(3) show ?thesis
      by (simp add: note_timing_def st sp number_or_def)
  qed
  then have "\<forall>n \<in> set (score_notes sd). \<not> is_rest n \<and> fromM \<le> note_measure n \<longrightarrow>
      note_timing (engine w1) sd n \<noteq> None"
    by simp
  from schedule_calls_timed [OF this]
  obtain calls where calls: "schedule_calls (engine w1) sd fromM (score_notes sd) = Some calls"
    and each: "\<forall>(n, noteStart, noteDur) \<in> set calls.
               n \<in> set (score_notes sd) \<and> \<not> is_rest n \<and> fromM \<le> note_measure n \<and>
               note_timing (engine w1) sd n = Some (noteStart, noteDur)"
    by blast
  have "(\<exists>cumStart secPerBeat.
           measureStartTimes (engine w1) (note_measure n) = Some cumStart \<and>
           measureSecPerBeat (engine w1) (note_measure n) = Some secPerBeat \<and>
           cumStart = (\<Sum>j = fromM..<note_measure n. ?f j) \<and>
           secPerBeat = seconds_per_beat sd (note_measure n) \<and>
           noteStart = startTime (engine w1) + SCHEDULE_AHEAD + cumStart + (beat n - 1) * secPerBeat \<and>
           (\<forall>b. DUR_TO_BEATS (duration n) = Some b \<longrightarrow> noteDur = b * secPerBeat)) \<and>
        (note_measure n = fromM \<and> measure_tempo sd fromM = 120 \<and> beat n = 5 / 2 \<longrightarrow>
           noteStart = startTime (engine w1) + SCHEDULE_AHEAD + 75 / 100)"
    if "(n, noteStart, noteDur) \<in> set calls" for n noteStart noteDur
  proof -
    from each that have n: "n \<in> set (score_notes sd)" "\<not> is_rest n" "fromM \<le> note_measure n"
      and nt: "note_timing (engine w1) sd n = Some (noteStart, noteDur)"
      by auto
    from n have le: "note_measure n \<le> ?L" by (rule last_notes_measure_upper)
    from timing [OF n] nt
    have s: "noteStart = startTime (engine w1) + SCHEDULE_AHEAD + (\<Sum>j = fromM..<note_measure n. ?f j)
              + (beat n - 1) * seconds_per_beat sd (note_measure n)"
      and d: "noteDur = number_or (DUR_TO_BEATS (duration n)) 1 * seconds_per_beat sd (note_measure n)"
      by simp_all
    have dur: "\<forall>b. DUR_TO_BEATS (duration n) = Some b \<longrightarrow>
        noteDur = b * seconds_per_beat sd (note_measure n)"
      using d by (auto simp: number_or_def dest: DUR_TO_BEATS_nonzero)
    have scen: "note_measure n = fromM \<and> measure_tempo sd fromM = 120 \<and> beat n = 5 / 2 \<longrightarrow>
           noteStart = startTime (engine w1) + SCHEDULE_AHEAD + 75 / 100"
      using s by (auto simp: seconds_per_beat_def)
    from s dur scen le n(3) show ?thesis
      by (simp add: st sp)
  qed
  with prep start calls show ?thesis by blast
qed

theorem scheduled_note_times_witness:
  "finite_timing one_note_score 1 (last_notes_measure 1 (score_notes one_note_score) 1) (\<lambda>k. 4) \<and>
   (\<exists>w1 calls. play_prepare one_note_score 1 (world_after [Clock 10]) = Some w1 \<and>
      schedule_calls (engine w1) one_note_score 1 (score_notes one_note_score) = Some calls \<and>
      map fst calls = [first_violin_note] \<and>
      (\<forall>(n, noteStart, noteDur) \<in> set calls.
         noteStart = 10 + SCHEDULE_AHEAD + 75 / 100 \<and> noteDur = 1 / 2))"
proof -
  have fin: "finite_timing one_note_score 1
      (last_notes_measure 1 (score_notes one_note_score) 1) (\<lambda>k. 4)"
    by (simp only: one_note_last one_note_finite)
  have now: "currentTime (world_after [Clock 10]) = 10" by code_simp
  have tempo: "measure_tempo one_note_score 1 = 120" by code_simp
  have spb: "seconds_per_beat one_note_score 1 = 1 / 2"
    unfolding seconds_per_beat_def tempo by simp
  have quarter: "DUR_TO_BEATS ''quarter'' = Some 1" by (simp add: DUR_TO_BEATS_def)
  from scheduled_note_times [OF fin, of "world_after [Clock 10]"]
  obtain w1 calls where prep: "play_prepare one_note_score 1 (world_after [Clock 10]) = Some w1"
    and start: "startTime (engine w1) = currentTime (world_after [Clock 10])"
    and calls: "schedule_calls (engine w1) one_note_score 1 (score_notes one_note_score) = Some calls"
    and each: "\<forall>(n, noteStart, noteDur) \<in> set calls.
        (\<exists>cumStart secPerBeat.
           measureStartTimes (engine w1) (note_measure n) = Some cumStart \<and>
           measureSecPerBeat (engine w1) (note_measure n) = Some secPerBeat \<and>
           cumStart = (\<Sum>j = 1..<note_measure n. 4 * seconds_per_beat one_note_score j) \<and>
           secPerBeat = seconds_per_beat one_note_score (note_measure n) \<and>
           noteStart = startTime (engine w1) + SCHEDULE_AHEAD + cumStart + (beat n - 1) * secPerBeat \<and>
           (\<forall>b. DUR_TO_BEATS (duration n) = Some b \<longrightarrow> noteDur = b * secPerBeat)) \<and>
        (note_measure n = 1 \<and> measure_tempo one_note_score 1 = 120 \<and> beat n = 5 / 2 \<longrightarrow>
           noteStart = startTime (engine w1) + SCHEDULE_AHEAD + 75 / 100)"
    by blast
  have muted: "mutedInstruments (engine w1) = {}" and solo: "soloInstrument (engine w1) = None"
    using prep by (auto simp: play_prepare_def Let_def world_after_def new_world_def new_engine_def
        split: option.splits)
  from schedule_calls_notes [OF calls] muted solo
  have names: "map fst calls = [first_violin_note]"
    by (simp add: skipped_by_solo_def one_note_score_def first_violin_note_def)
  have "noteStart = 10 + SCHEDULE_AHEAD + 75 / 100 \<and> noteDur = 1 / 2"
    if c: "(n, noteStart, noteDur) \<in> set calls" for n noteStart noteDur
  proof -
    from c have "n \<in> set (map fst calls)" by force
    with names have n: "n = first_violin_note" by simp
    then have nf: "note_measure n = 1" "beat n = 5 / 2" "duration n = ''quarter''"
      by (simp_all add: first_violin_note_def)
    from each c nf tempo start now have "noteStart = 10 + SCHEDULE_AHEAD + 75 / 100"
      by fastforce
    moreover from each c nf quarter spb have "noteDur = 1 / 2"
      by fastforce
    ultimately show ?thesis by simp
  qed
  then have "\<forall>(n, noteStart, noteDur) \<in> set calls.
         noteStart = 10 + SCHEDULE_AHEAD + 75 / 100 \<and> noteDur = 1 / 2"
    by auto
  with prep calls names
  have "\<exists>w1 calls. play_prepare one_note_score 1 (world_after [Clock 10]) = Some w1 \<and>
      schedule_calls (engine w1) one_note_score 1 (score_notes one_note_score) = Some calls \<and>
      map fst calls = [first_violin_note] \<and>
      (\<forall>(n, noteStart, noteDur) \<in> set calls.
         noteStart = 10 + SCHEDULE_AHEAD + 75 / 100 \<and> noteDur = 1 / 2)"
    by (intro exI [of _ w1] exI [of _ calls] conjI)
  with fin show ?thesis by (rule conjI)
qed

subsection \<open>Preloading\<close>

lemma load_cases:
  assumes "load sf sk k w = (p, w')"
  shows "pending w' k = Some p \<and> (\<forall>k'. k' \<noteq> k \<longrightarrow> pending w' k' = pending w k') \<and>
         (pending w k \<noteq> None \<longrightarrow> w' = w) \<and>
         (pending w k = None \<longrightarrow>
            w' = w \<lparr> promises := promises w @
                        [\<lparr> load_key = k, load_url = sample_url sf sk, load_state = InFlight \<rparr>],
                      pending := (pending w)(k \<mapsto> length (promises w)) \<rparr> \<and>
            p = length (promises w))"
  using assms by (auto simp: load_def split: option.splits)

lemma load_fetch_count:
  assumes "load sf sk k w = (p, w')"
  shows "fetch_count w' k' =
           (if pending w k = None \<and> k' = k then Suc (fetch_count w k') else fetch_count w k')"
  using assms by (auto simp: load_def fetch_count_def split: option.splits)

lemma load_frame:
  assumes "load sf sk k w = (p, w')"
  shows "cache w' = cache w \<and> engine w' = engine w \<and> nodes w' = nodes w \<and> tasks w' = tasks w
         \<and> frames w' = frames w \<and> emitted w' = emitted w \<and> currentTime w' = currentTime w
         \<and> next_frame w' = next_frame w
         \<and> (\<exists>new. promises w' = promises w @ new)"
  using assms by (auto simp: load_def split: option.splits)

lemma load_pending_ok:
  assumes "load sf sk k w = (p, w')" "pending_ok w"
  shows "pending_ok w'"
proof (cases "pending w k")
  case None
  with assms(1) have w': "promises w' = promises w @
        [\<lparr> load_key = k, load_url = sample_url sf sk, load_state = InFlight \<rparr>]"
    "pending w' = (pending w)(k \<mapsto> length (promises w))"
    by (auto simp: load_def)
  show ?thesis
    unfolding pending_ok_def
  proof (intro allI impI)
    fix k' p'
    assume "pending w' k' = Some p'"
    with w' have "(k' = k \<and> p' = length (promises w)) \<or> (k' \<noteq> k \<and> pending w k' = Some p')"
      by (auto split: if_splits)
    then show "p' < length (promises w') \<and> load_key (promises w' ! p') = k'
        \<and> load_state (promises w' ! p') = InFlight"
    proof
      assume "k' = k \<and> p' = length (promises w)"
      then show ?thesis by (simp add: w')
    next
      assume "k' \<noteq> k \<and> pending w k' = Some p'"
      with assms(2) have "p' < length (promises w) \<and> load_key (promises w ! p') = k'
          \<and> load_state (promises w ! p') = InFlight"
        unfolding pending_ok_def by blast
      then show ?thesis by (simp add: w' nth_append)
    qed
  qed
next
  case (Some q)
  with assms show ?thesis by (simp add: load_def)
qed

lemma preload_loop_skip:
  "is_rest n \<or> note_cache_key n \<in> seen \<or> note_cache_key n \<in> cache w \<Longrightarrow>
   preload_loop (n # ns) seen jobs w = preload_loop ns seen jobs w"
  by auto

lemma preload_loop_load:
  "\<not> (is_rest n \<or> note_cache_key n \<in> seen \<or> note_cache_key n \<in> cache w) \<Longrightarrow>
   load (soundfont_of (instrument_id n)) (pitchToSampleKey (pitch n)) (note_cache_key n) w = (p, w1) \<Longrightarrow>
   preload_loop (n # ns) seen jobs w =
     preload_loop ns (insert (note_cache_key n) seen) (jobs @ [p]) w1"
  by auto

lemma preload_loop_frame:
  "preload_loop ns seen jobs w = (jobs', w') \<Longrightarrow>
   cache w' = cache w \<and> engine w' = engine w \<and> nodes w' = nodes w \<and> tasks w' = tasks w
   \<and> frames w' = frames w \<and> emitted w' = emitted w \<and> currentTime w' = currentTime w
   \<and> next_frame w' = next_frame w
   \<and> (\<exists>new. promises w' = promises w @ new) \<and> set jobs \<subseteq> set jobs'
   \<and> (pending_ok w \<longrightarrow> pending_ok w')"
proof (induction ns arbitrary: seen jobs w)
  case Nil
  then show ?case by simp
next
  case (Cons n ns)
  show ?case
  proof (cases "is_rest n \<or> note_cache_key n \<in> seen \<or> note_cache_key n \<in> cache w")
    case True
    from preload_loop_skip [OF True] Cons.prems(1)
    have "preload_loop ns seen jobs w = (jobs', w')" by simp
    from Cons.IH [OF this] show ?thesis .
  next
    case False
    obtain p w1 where ld: "load (soundfont_of (instrument_id n)) (pitchToSampleKey (pitch n))
                (note_cache_key n) w = (p, w1)"
      by force
    from preload_loop_load [OF False ld] Cons.prems(1)
    have "preload_loop ns (insert (note_cache_key n) seen) (jobs @ [p]) w1 = (jobs', w')"
      by simp
    from Cons.IH [OF this] load_frame [OF ld] load_pending_ok [OF ld]
    show ?thesis by auto
  qed
qed

lemma preload_loop_count:
  "preload_loop ns seen jobs w = (jobs', w') \<Longrightarrow>
   (pending w k \<noteq> None \<longrightarrow> fetch_count w' k = fetch_count w k \<and> pending w' k = pending w k) \<and>
   (pending w k = None \<longrightarrow>
      (pending w' k = None \<and> fetch_count w' k = fetch_count w k) \<or>
      (pending w' k \<noteq> None \<and> fetch_count w' k = Suc (fetch_count w k)))"
proof (induction ns arbitrary: seen jobs w)
  case Nil
  then show ?case by simp
next
  case (Cons n ns)
  show ?case
  proof (cases "is_rest n \<or> note_cache_key n \<in> seen \<or> note_cache_key n \<in> cache w")
    case True
    from preload_loop_skip [OF True] Cons.prems(1)
    have "preload_loop ns seen jobs w = (jobs', w')" by simp
    from Cons.IH [OF this] show ?thesis .
  next
    case False
    obtain p w1 where ld: "load (soundfont_of (instrument_id n)) (pitchToSampleKey (pitch n))
                (note_cache_key n) w = (p, w1)"
      by force
    from preload_loop_load [OF False ld] Cons.prems(1)
    have rest: "preload_loop ns (insert (note_cache_key n) seen) (jobs @ [p]) w1 = (jobs', w')"
      by simp
    note ih = Cons.IH [OF rest]
    note lc = load_cases [OF ld]
    note fc = load_fetch_count [OF ld, of k]
    show ?thesis
    proof (cases "k = note_cache_key n")
      case True
      with ih lc fc show ?thesis by (cases "pending w k") auto
    next
      case False
      with ih lc fc show ?thesis by auto
    qed
  qed
qed

lemma preload_loop_jobs:
  "preload_loop ns seen jobs w = (jobs', w') \<Longrightarrow>
   n \<in> set ns \<Longrightarrow> \<not> is_rest n \<Longrightarrow> note_cache_key n \<notin> cache w \<Longrightarrow>
   note_cache_key n \<notin> seen \<or> (\<exists>p. pending w (note_cache_key n) = Some p \<and> p \<in> set jobs) \<Longrightarrow>
   \<exists>p. pending w' (note_cache_key n) = Some p \<and> p \<in> set jobs'"
proof (induction ns arbitrary: seen jobs w)
  case Nil
  then show ?case by simp
next
  case (Cons x xs)
  have keep: "\<exists>p. pending w' (note_cache_key n) = Some p \<and> p \<in> set jobs'"
    if "preload_loop ys seen' js w0 = (jobs', w')"
      "\<exists>p. pending w0 (note_cache_key n) = Some p \<and> p \<in> set js" for ys seen' js w0
  proof -
    from that(2) obtain p where p: "pending w0 (note_cache_key n) = Some p" "p \<in> set js" by blast
    from preload_loop_count [OF that(1), of "note_cache_key n"] p
    have "pending w' (note_cache_key n) = Some p" by simp
    moreover from preload_loop_frame [OF that(1)] p have "p \<in> set jobs'" by auto
    ultimately show ?thesis by blast
  qed
  show ?case
  proof (cases "is_rest x \<or> note_cache_key x \<in> seen \<or> note_cache_key x \<in> cache w")
    case True
    from preload_loop_skip [OF True] Cons.prems(1)
    have rest: "preload_loop xs seen jobs w = (jobs', w')" by simp
    show ?thesis
    proof (cases "n = x")
      case True
      with \<open>is_rest x \<or> note_cache_key x \<in> seen \<or> note_cache_key x \<in> cache w\<close> Cons.prems
      have "\<exists>p. pending w (note_cache_key n) = Some p \<and> p \<in> set jobs" by auto
      with rest show ?thesis by (rule keep)
    next
      case False
      with Cons.prems have "n \<in> set xs" by simp
      from Cons.IH [OF rest this Cons.prems(3,4,5)] show ?thesis .
    qed
  next
    case False
    obtain p w1 where ld: "load (soundfont_of (instrument_id x)) (pitchToSampleKey (pitch x))
                (note_cache_key x) w = (p, w1)"
      by force
    from preload_loop_load [OF False ld] Cons.prems(1)
    have rest: "preload_loop xs (insert (note_cache_key x) seen) (jobs @ [p]) w1 = (jobs', w')"
      by simp
    note lc = load_cases [OF ld]
    note lf = load_frame [OF ld]
    show ?thesis
    proof (cases "note_cache_key n = note_cache_key x")
      case True
      with lc have "\<exists>q. pending w1 (note_cache_key n) = Some q \<and> q \<in> set (jobs @ [p])" by simp
      with rest show ?thesis by (rule keep)
    next
      case False
      with Cons.prems have nx: "n \<in> set xs" by auto
      have c: "note_cache_key n \<notin> cache w1" using lf Cons.prems(4) by simp
      have "note_cache_key n \<notin> insert (note_cache_key x) seen \<or>
            (\<exists>q. pending w1 (note_cache_key n) = Some q \<and> q \<in> set (jobs @ [p]))"
        using Cons.prems(5) False lc by auto
      from Cons.IH [OF rest nx Cons.prems(3) c this] show ?thesis .
    qed
  qed
qed

lemma preload_inv_new_world: "preload_inv new_world"
  by (simp add: preload_inv_def pending_ok_def settled_cached_def new_world_def)

lemma stop_frame:
  "cache (stop w) = cache w \<and> pending (stop w) = pending w \<and> promises (stop w) = promises w
   \<and> tasks (stop w) = tasks w \<and> length (nodes (stop w)) = length (nodes w)"
  by (simp add: stop_def length_fold_halt_node)

lemma task_covered_mono:
  assumes "task_covered w t" "cache w \<subseteq> cache w'" "length (promises w) \<le> length (promises w')"
    and "\<And>p. p < length (promises w) \<Longrightarrow> load_key (promises w' ! p) = load_key (promises w ! p)"
  shows "task_covered w' t"
  unfolding task_covered_def
proof (intro ballI impI)
  fix n
  assume n: "n \<in> set (score_notes (task_scoreData t))"
    "\<not> is_rest n \<and> task_fromMeasure t \<le> note_measure n"
  with assms(1) have "note_cache_key n \<in> cache w \<or>
        (\<exists>p \<in> set (task_jobs t). p < length (promises w) \<and>
            load_key (promises w ! p) = note_cache_key n)"
    by (simp add: task_covered_def)
  then show "note_cache_key n \<in> cache w' \<or>
        (\<exists>p \<in> set (task_jobs t). p < length (promises w') \<and>
            load_key (promises w' ! p) = note_cache_key n)"
  proof
    assume "note_cache_key n \<in> cache w"
    with assms(2) show ?thesis by auto
  next
    assume "\<exists>p \<in> set (task_jobs t). p < length (promises w) \<and>
            load_key (promises w ! p) = note_cache_key n"
    then obtain p where "p \<in> set (task_jobs t)" "p < length (promises w)"
      "load_key (promises w ! p) = note_cache_key n" by blast
    with assms(3,4) have "p \<in> set (task_jobs t) \<and> p < length (promises w') \<and>
            load_key (promises w' ! p) = note_cache_key n"
      by auto
    then show ?thesis by blast
  qed
qed

lemma settled_cached_append:
  assumes "settled_cached w" "cache w' = cache w" "promises w' = promises w @ new"
    and "\<forall>q \<in> set new. load_state q = InFlight"
  shows "settled_cached w'"
  unfolding settled_cached_def
proof (intro allI impI)
  fix p
  assume p: "p < length (promises w')" "load_state (promises w' ! p) = Settled True"
  show "load_key (promises w' ! p) \<in> cache w'"
  proof (cases "p < length (promises w)")
    case True
    with assms(1,2,3) p show ?thesis by (simp add: settled_cached_def nth_append)
  next
    case False
    with p assms(3) have "promises w' ! p \<in> set new"
      by (simp add: nth_append)
    with assms(4) p show ?thesis by auto
  qed
qed

lemma load_new_inflight:
  assumes "load sf sk k w = (p, w')"
  shows "\<exists>new. promises w' = promises w @ new \<and> (\<forall>q \<in> set new. load_state q = InFlight)"
  using assms by (auto simp: load_def split: option.splits)

lemma preload_loop_new_inflight:
  "preload_loop ns seen jobs w = (jobs', w') \<Longrightarrow>
   \<exists>new. promises w' = promises w @ new \<and> (\<forall>q \<in> set new. load_state q = InFlight)"
proof (induction ns arbitrary: seen jobs w)
  case Nil
  then show ?case by simp
next
  case (Cons n ns)
  show ?case
  proof (cases "is_rest n \<or> note_cache_key n \<in> seen \<or> note_cache_key n \<in> cache w")
    case True
    from preload_loop_skip [OF True] Cons.prems(1)
    have "preload_loop ns seen jobs w = (jobs', w')" by simp
    from Cons.IH [OF this] show ?thesis .
  next
    case False
    obtain p w1 where ld: "load (soundfont_of (instrument_id n)) (pitchToSampleKey (pitch n))
                (note_cache_key n) w = (p, w1)"
      by force
    from preload_loop_load [OF False ld] Cons.prems(1)
    have "preload_loop ns (insert (note_cache_key n) seen) (jobs @ [p]) w1 = (jobs', w')"
      by simp
    from Cons.IH [OF this] load_new_inflight [OF ld]
    show ?thesis by auto
  qed
qed

lemma play_call_inv:
  assumes "preload_inv w"
  shows "preload_inv (play_call sd fromM w)"
proof -
  define w2 where "w2 = (stop w) \<lparr> engine := (engine (stop w)) \<lparr> playing := True, loading := True,
                                          startMeasure := fromM,
                                          engine_scoreData := Some sd \<rparr> \<rparr>"
  define playable where
    "playable = filter (\<lambda>n. \<not> is_rest n \<and> note_measure n \<ge> fromM) (score_notes sd)"
  obtain jobs w3 where pl: "preload_loop playable {} [] w2 = (jobs, w3)" by force
  define t where "t = \<lparr> task_scoreData = sd, task_fromMeasure = fromM,
                       task_jobs = jobs, task_done = False \<rparr>"
  have pc: "play_call sd fromM w = w3 \<lparr> tasks := tasks w3 @ [t] \<rparr>"
    using pl by (simp add: play_call_def Let_def w2_def playable_def preload_def t_def)
  have w2: "cache w2 = cache w" "pending w2 = pending w" "promises w2 = promises w"
    "tasks w2 = tasks w"
    by (simp_all add: w2_def stop_def)
  from assms have inv2: "pending_ok w2" "settled_cached w2" "\<forall>t \<in> set (tasks w2). task_covered w2 t"
    by (simp_all add: preload_inv_def pending_ok_def settled_cached_def task_covered_def w2)
  from preload_loop_frame [OF pl] inv2(1)
  have fr: "cache w3 = cache w2" "tasks w3 = tasks w2" "pending_ok w3"
    and ext: "\<exists>new. promises w3 = promises w2 @ new"
    by auto
  from preload_loop_new_inflight [OF pl] inv2(2) fr(1)
  have sc: "settled_cached w3" by (auto intro: settled_cached_append)
  have old: "task_covered w3 t'" if "t' \<in> set (tasks w2)" for t'
  proof (rule task_covered_mono)
    show "task_covered w2 t'" using inv2(3) that by simp
    show "cache w2 \<subseteq> cache w3" using fr(1) by simp
    show "length (promises w2) \<le> length (promises w3)" using ext by auto
    show "\<And>p. p < length (promises w2) \<Longrightarrow>
        load_key (promises w3 ! p) = load_key (promises w2 ! p)"
      using ext by (auto simp: nth_append)
  qed
  have new: "task_covered w3 t"
    unfolding task_covered_def
  proof (intro ballI impI)
    fix n
    assume n: "n \<in> set (score_notes (task_scoreData t))"
      "\<not> is_rest n \<and> task_fromMeasure t \<le> note_measure n"
    then have mem: "n \<in> set playable" by (simp add: playable_def t_def)
    show "note_cache_key n \<in> cache w3 \<or>
        (\<exists>p \<in> set (task_jobs t). p < length (promises w3) \<and>
            load_key (promises w3 ! p) = note_cache_key n)"
    proof (cases "note_cache_key n \<in> cache w2")
      case True
      with fr(1) show ?thesis by simp
    next
      case False
      from preload_loop_jobs [OF pl mem _ False] n
      obtain p where "pending w3 (note_cache_key n) = Some p" "p \<in> set jobs" by auto
      with fr(3) have "p \<in> set (task_jobs t) \<and> p < length (promises w3) \<and>
            load_key (promises w3 ! p) = note_cache_key n"
        unfolding pending_ok_def t_def by auto
      then show ?thesis by blast
    qed
  qed
  from fr(3) sc old new fr(2) show ?thesis
    by (auto simp: pc preload_inv_def pending_ok_def settled_cached_def task_covered_def)
qed

lemma load_settle_inv:
  assumes "preload_inv w" "load_settle p ok w = Some w'"
  shows "preload_inv w'"
proof -
  from assms(2) have p: "p < length (promises w)" "load_state (promises w ! p) = InFlight"
    and w': "cache w' = (if ok then insert (load_key (promises w ! p)) (cache w) else cache w)"
      "pending w' = (pending w)(load_key (promises w ! p) := None)"
      "promises w' = (promises w)[p := (promises w ! p) \<lparr> load_state := Settled ok \<rparr>]"
      "tasks w' = tasks w"
    by (auto simp: load_settle_def split: if_splits)
  have keys: "load_key (promises w' ! q) = load_key (promises w ! q)" if "q < length (promises w)" for q
    using that by (cases "q = p") (simp_all add: w'(3))
  have len: "length (promises w') = length (promises w)" by (simp add: w'(3))
  have "pending_ok w'"
    unfolding pending_ok_def
  proof (intro allI impI)
    fix k q
    assume "pending w' k = Some q"
    then have k: "k \<noteq> load_key (promises w ! p)" "pending w k = Some q"
      by (auto simp: w'(2) split: if_splits)
    with assms(1) have q: "q < length (promises w)" "load_key (promises w ! q) = k"
      "load_state (promises w ! q) = InFlight"
      unfolding preload_inv_def pending_ok_def by blast+
    with k have "q \<noteq> p" by auto
    with q show "q < length (promises w') \<and> load_key (promises w' ! q) = k
        \<and> load_state (promises w' ! q) = InFlight"
      by (simp add: w'(3))
  qed
  moreover have "settled_cached w'"
    unfolding settled_cached_def
  proof (intro allI impI)
    fix q
    assume q: "q < length (promises w')" "load_state (promises w' ! q) = Settled True"
    show "load_key (promises w' ! q) \<in> cache w'"
    proof (cases "q = p")
      case True
      with q p have "ok" by (simp add: w'(3))
      with True p show ?thesis by (simp add: w' )
    next
      case False
      with q have "q < length (promises w)" "load_state (promises w ! q) = Settled True"
        by (simp_all add: w'(3))
      with assms(1) have "load_key (promises w ! q) \<in> cache w"
        by (simp add: preload_inv_def settled_cached_def)
      with False show ?thesis by (simp add: w')
    qed
  qed
  moreover have "task_covered w' t" if "t \<in> set (tasks w)" for t
  proof (rule task_covered_mono)
    show "task_covered w t" using assms(1) that by (simp add: preload_inv_def)
    show "cache w \<subseteq> cache w'" by (auto simp: w'(1))
    show "length (promises w) \<le> length (promises w')" by (simp add: len)
    show "\<And>q. q < length (promises w) \<Longrightarrow> load_key (promises w' ! q) = load_key (promises w ! q)"
      by (rule keys)
  qed
  ultimately show ?thesis by (simp add: preload_inv_def w'(4))
qed

lemma push_node_frame:
  "cache (push_node nd w) = cache w \<and> pending (push_node nd w) = pending w
   \<and> promises (push_node nd w) = promises w \<and> tasks (push_node nd w) = tasks w"
  by (simp add: push_node_def)

lemma scheduleNote_frame:
  "cache (scheduleNote n st d w) = cache w \<and> pending (scheduleNote n st d w) = pending w
   \<and> promises (scheduleNote n st d w) = promises w \<and> tasks (scheduleNote n st d w) = tasks w"
  by (simp add: scheduleNote_def Let_def push_node_frame)

lemma perform_calls_frame:
  "cache (perform_calls calls w) = cache w \<and> pending (perform_calls calls w) = pending w
   \<and> promises (perform_calls calls w) = promises w \<and> tasks (perform_calls calls w) = tasks w"
proof (induction calls arbitrary: w)
  case Nil
  then show ?case by (simp add: perform_calls_def)
next
  case (Cons c calls)
  obtain n st d where c: "c = (n, st, d)" by (cases c)
  have "perform_calls (c # calls) w = perform_calls calls (scheduleNote n st d w)"
    by (simp add: perform_calls_def c)
  with Cons [of "scheduleNote n st d w"] scheduleNote_frame [of n st d w]
  show ?case by simp
qed

lemma play_continue_frame:
  assumes "play_continue sd fromM w = Some w'"
  shows "cache w' = cache w \<and> pending w' = pending w \<and> promises w' = promises w
         \<and> tasks w' = tasks w"
proof (cases "playing (engine w)")
  case False
  with assms show ?thesis by (simp add: play_continue_def)
next
  case True
  with assms obtain w1 calls where w1: "play_prepare sd fromM w = Some w1"
    and w': "w' = animateMeasure (perform_calls calls w1)"
    by (auto simp: play_continue_def split: option.splits)
  from w1 have "cache w1 = cache w \<and> pending w1 = pending w \<and> promises w1 = promises w
         \<and> tasks w1 = tasks w"
    by (auto simp: play_prepare_def Let_def split: option.splits)
  with perform_calls_frame [of calls w1] show ?thesis
    by (simp add: w' animateMeasure_def)
qed

lemma task_covered_cong:
  assumes "task_covered w t" "cache w' = cache w" "promises w' = promises w"
    "task_scoreData t' = task_scoreData t" "task_fromMeasure t' = task_fromMeasure t"
    "task_jobs t' = task_jobs t"
  shows "task_covered w' t'"
  using assms by (simp add: task_covered_def)

lemma resume_inv:
  assumes "preload_inv w" "resume i w = Some w'"
  shows "preload_inv w'"
proof -
  let ?w0 = "w \<lparr> tasks := (tasks w)[i := (tasks w ! i) \<lparr> task_done := True \<rparr>] \<rparr>"
  from assms(2) have i: "i < length (tasks w)"
    and pc: "play_continue (task_scoreData (tasks w ! i)) (task_fromMeasure (tasks w ! i)) ?w0 = Some w'"
    by (auto simp: resume_def split: if_splits)
  from play_continue_frame [OF pc]
  have fr: "cache w' = cache w" "pending w' = pending w" "promises w' = promises w"
    "tasks w' = (tasks w)[i := (tasks w ! i) \<lparr> task_done := True \<rparr>]"
    by simp_all
  have "task_covered w' t" if "t \<in> set (tasks w')" for t
  proof -
    from that obtain j where j: "j < length (tasks w)" "t = tasks w' ! j"
      by (auto simp: fr(4) in_set_conv_nth)
    from j(1) assms(1) have cov: "task_covered w (tasks w ! j)"
      by (simp add: preload_inv_def)
    show ?thesis
    proof (cases "j = i")
      case True
      with j have "t = (tasks w ! i) \<lparr> task_done := True \<rparr>" by (simp add: fr(4))
      then show ?thesis
        by (intro task_covered_cong [OF cov [unfolded True]]) (simp_all add: fr)
    next
      case False
      with j have "t = tasks w ! j" by (simp add: fr(4))
      then show ?thesis
        by (intro task_covered_cong [OF cov]) (simp_all add: fr)
    qed
  qed
  with assms(1) show ?thesis
    by (simp add: preload_inv_def pending_ok_def settled_cached_def fr)
qed

lemma preload_inv_frame:
  "preload_inv w \<Longrightarrow> cache w' = cache w \<Longrightarrow> pending w' = pending w \<Longrightarrow>
   promises w' = promises w \<Longrightarrow> tasks w' = tasks w \<Longrightarrow> preload_inv w'"
  by (simp add: preload_inv_def pending_ok_def settled_cached_def task_covered_def)

lemma step_inv:
  assumes "preload_inv w" "step ev w = Some w'"
  shows "preload_inv w'"
proof (cases ev)
  case (Play sd fromM)
  with assms show ?thesis by (auto intro: play_call_inv)
next
  case (Settle p ok)
  with assms show ?thesis by (auto intro: load_settle_inv)
next
  case (Resume i)
  with assms show ?thesis by (auto intro: resume_inv)
next
  case Stop
  with assms(2) have "w' = stop w" by simp
  then show ?thesis
    by (intro preload_inv_frame [OF assms(1)]) (simp_all add: stop_frame)
next
  case (ToggleMute x)
  with assms(2) have "w' = w \<lparr> engine := toggleMute x (engine w) \<rparr>" by simp
  then show ?thesis
    by (intro preload_inv_frame [OF assms(1)]) simp_all
next
  case (ToggleSolo x)
  with assms(2) have "w' = w \<lparr> engine := toggleSolo x (engine w) \<rparr>" by simp
  then show ?thesis
    by (intro preload_inv_frame [OF assms(1)]) simp_all
next
  case (Clock t)
  with assms(2) have "w' = w \<lparr> currentTime := t \<rparr>" by (simp split: if_splits)
  then show ?thesis
    by (intro preload_inv_frame [OF assms(1)]) simp_all
qed

lemma run_inv:
  "preload_inv w \<Longrightarrow> run evs w = Some w' \<Longrightarrow> preload_inv w'"
proof (induction evs arbitrary: w)
  case Nil
  then show ?case by simp
next
  case (Cons ev evs)
  then obtain w1 where "step ev w = Some w1" "run evs w1 = Some w'"
    by (auto split: option.splits)
  with Cons show ?case by (blast intro: step_inv)
qed

lemma play_call_nodes: "length (nodes (play_call sd fromM w)) = length (nodes w)"
proof -
  let ?w2 = "(stop w) \<lparr> engine := (engine (stop w)) \<lparr> playing := True, loading := True,
                                          startMeasure := fromM,
                                          engine_scoreData := Some sd \<rparr> \<rparr>"
  let ?playable = "filter (\<lambda>n. \<not> is_rest n \<and> note_measure n \<ge> fromM) (score_notes sd)"
  obtain jobs w3 where pl: "preload_loop ?playable {} [] ?w2 = (jobs, w3)" by force
  from preload_loop_frame [OF pl] have "nodes w3 = nodes (stop w)" by simp
  with pl show ?thesis
    by (simp add: play_call_def Let_def preload_def stop_frame)
qed

lemma step_nodes:
  assumes "step ev w = Some w'" "length (nodes w) < length (nodes w')"
  shows "\<exists>i. ev = Resume i"
proof (cases ev)
  case (Play sd fromM)
  with assms(1) have "w' = play_call sd fromM w" by simp
  with assms(2) play_call_nodes [of sd fromM w] show ?thesis by simp
next
  case (Settle p ok)
  with assms show ?thesis by (auto simp: load_settle_def split: if_splits)
next
  case (Resume i)
  then show ?thesis by simp
next
  case Stop
  with assms(1) have "w' = stop w" by simp
  with assms(2) stop_frame [of w] show ?thesis by simp
next
  case (ToggleMute x)
  with assms show ?thesis by auto
next
  case (ToggleSolo x)
  with assms show ?thesis by auto
next
  case (Clock t)
  with assms show ?thesis by (auto split: if_splits)
qed

lemma run_snoc:
  "run (evs @ [ev]) w = (case run evs w of None \<Rightarrow> None | Some w1 \<Rightarrow> step ev w1)"
  by (induction evs arbitrary: w) (auto split: option.splits)

text \<open>
  Claim C5.  In an execution from the fresh engine, an event that adds a node to the
  audio context is the resumption of a suspended \<open>play\<close>, and at that moment every
  playable note of that call has its sample in the cache or a job of the call, for its
  key, that has settled with failure.
\<close>

theorem schedule_only_after_preload_settled:
  assumes "run evs new_world = Some w" and "step ev w = Some w'"
    and "length (nodes w) < length (nodes w')"
  shows "\<exists>i. ev = Resume i \<and> i < length (tasks w) \<and>
     (\<forall>n \<in> set (score_notes (task_scoreData (tasks w ! i))).
        \<not> is_rest n \<and> task_fromMeasure (tasks w ! i) \<le> note_measure n \<longrightarrow>
        note_cache_key n \<in> cache w \<or>
        (\<exists>p \<in> set (task_jobs (tasks w ! i)). p < length (promises w) \<and>
            load_key (promises w ! p) = note_cache_key n \<and>
            load_state (promises w ! p) = Settled False))"
proof -
  from step_nodes [OF assms(2,3)] obtain i where ev: "ev = Resume i" by blast
  with assms(2) have i: "i < length (tasks w)"
    and settled: "jobs_settled w (task_jobs (tasks w ! i))"
    by (auto simp: resume_def split: if_splits)
  from run_inv [OF preload_inv_new_world assms(1)]
  have sc: "settled_cached w" and cov: "task_covered w (tasks w ! i)"
    using i by (simp_all add: preload_inv_def)
  have "note_cache_key n \<in> cache w \<or>
        (\<exists>p \<in> set (task_jobs (tasks w ! i)). p < length (promises w) \<and>
            load_key (promises w ! p) = note_cache_key n \<and>
            load_state (promises w ! p) = Settled False)"
    if n: "n \<in> set (score_notes (task_scoreData (tasks w ! i)))"
      "\<not> is_rest n \<and> task_fromMeasure (tasks w ! i) \<le> note_measure n" for n
  proof (cases "note_cache_key n \<in> cache w")
    case True
    then show ?thesis by simp
  next
    case False
    with cov n obtain p where p: "p \<in> set (task_jobs (tasks w ! i))" "p < length (promises w)"
      "load_key (promises w ! p) = note_cache_key n"
      unfolding task_covered_def by blast
    from settled p(1) have "load_state (promises w ! p) \<noteq> InFlight"
      by (simp add: jobs_settled_def list_all_iff)
    then obtain ok where ok: "load_state (promises w ! p) = Settled ok"
      by (cases "load_state (promises w ! p)") auto
    with sc p False have "\<not> ok" by (auto simp: settled_cached_def)
    with ok p show ?thesis by auto
  qed
  with ev i show ?thesis by blast
qed

theorem schedule_only_after_preload_settled_witness:
  "run [Play one_note_score 1, Settle 0 False] new_world =
     Some (world_after [Play one_note_score 1, Settle 0 False]) \<and>
   step (Resume 0) (world_after [Play one_note_score 1, Settle 0 False]) =
     Some (world_after [Play one_note_score 1, Settle 0 False, Resume 0]) \<and>
   length (nodes (world_after [Play one_note_score 1, Settle 0 False])) <
     length (nodes (world_after [Play one_note_score 1, Settle 0 False, Resume 0])) \<and>
   note_cache_key first_violin_note \<notin> cache (world_after [Play one_note_score 1, Settle 0 False]) \<and>
   (\<exists>p \<in> set (task_jobs (tasks (world_after [Play one_note_score 1, Settle 0 False]) ! 0)).
      load_key (promises (world_after [Play one_note_score 1, Settle 0 False]) ! p) =
        note_cache_key first_violin_note \<and>
      load_state (promises (world_after [Play one_note_score 1, Settle 0 False]) ! p) = Settled False)"
proof -
  let ?evs = "[Play one_note_score 1, Settle 0 False]"
  let ?w = "world_after ?evs"
  let ?w' = "world_after [Play one_note_score 1, Settle 0 False, Resume 0]"
  have "run ?evs new_world \<noteq> None" by code_simp
  then have r: "run ?evs new_world = Some ?w" by (rule world_after_run)
  have "run (?evs @ [Resume 0]) new_world \<noteq> None" by code_simp
  then have "run (?evs @ [Resume 0]) new_world = Some ?w'"
    using world_after_run [of "?evs @ [Resume 0]"] by simp
  with r have st: "step (Resume 0) ?w = Some ?w'"
    by (simp only: run_snoc option.case)
  have ln: "length (nodes ?w) < length (nodes ?w')" by code_simp
  have nc: "note_cache_key first_violin_note \<notin> cache ?w" by code_simp
  have t0: "task_scoreData (tasks ?w ! 0) = one_note_score" "task_fromMeasure (tasks ?w ! 0) = 1"
    by code_simp+
  from schedule_only_after_preload_settled [OF r st ln]
  have cov: "\<forall>n \<in> set (score_notes (task_scoreData (tasks ?w ! 0))).
        \<not> is_rest n \<and> task_fromMeasure (tasks ?w ! 0) \<le> note_measure n \<longrightarrow>
        note_cache_key n \<in> cache ?w \<or>
        (\<exists>p \<in> set (task_jobs (tasks ?w ! 0)). p < length (promises ?w) \<and>
            load_key (promises ?w ! p) = note_cache_key n \<and>
            load_state (promises ?w ! p) = Settled False)"
    by auto
  have "first_violin_note \<in> set (score_notes (task_scoreData (tasks ?w ! 0)))"
    "\<not> is_rest first_violin_note \<and> task_fromMeasure (tasks ?w ! 0) \<le> note_measure first_violin_note"
    unfolding t0 by (simp_all add: one_note_score_def first_violin_note_def)
  with cov nc have "\<exists>p \<in> set (task_jobs (tasks ?w ! 0)).
      load_key (promises ?w ! p) = note_cache_key first_violin_note \<and>
      load_state (promises ?w ! p) = Settled False"
    by blast
  with r st ln nc show ?thesis by (intro conjI)
qed

text \<open>
  Claim C6.  In a world an execution reaches, let two calls of \<open>preload\<close> follow each
  other with no load settling in between, both asking for a key that is neither cached
  nor in flight.  Then exactly one request is sent for that key, no key gets more than
  one request, both calls wait for the same promise, and when that promise settles,
  with success or with failure, the key leaves the in-flight table.
\<close>

theorem concurrent_preload_one_fetch:
  assumes reach: "run evs new_world = Some w"
    and p1: "preload ns1 w = (jobs1, w1)" and p2: "preload ns2 w1 = (jobs2, w2)"
    and n1: "n1 \<in> set ns1" "\<not> is_rest n1" "note_cache_key n1 = k"
    and n2: "n2 \<in> set ns2" "\<not> is_rest n2" "note_cache_key n2 = k"
    and fresh: "k \<notin> cache w" "pending w k = None"
  shows "fetch_count w2 k = Suc (fetch_count w k) \<and>
     (\<forall>k'. fetch_count w2 k' \<le> Suc (fetch_count w k')) \<and>
     (\<exists>p. p \<in> set jobs1 \<and> p \<in> set jobs2 \<and> pending w2 k = Some p \<and>
          p < length (promises w2) \<and> load_key (promises w2 ! p) = k \<and>
          (\<forall>ok. \<exists>w3. load_settle p ok w2 = Some w3 \<and> pending w3 k = None))"
proof -
  from p1 have l1: "preload_loop ns1 {} [] w = (jobs1, w1)" by (simp add: preload_def)
  from p2 have l2: "preload_loop ns2 {} [] w1 = (jobs2, w2)" by (simp add: preload_def)
  from run_inv [OF preload_inv_new_world reach] have "pending_ok w"
    by (simp add: preload_inv_def)
  with preload_loop_frame [OF l1] have c1: "cache w1 = cache w" and ok1: "pending_ok w1" by auto
  with preload_loop_frame [OF l2] have ok2: "pending_ok w2" by auto
  from preload_loop_jobs [OF l1 n1(1,2)] fresh(1) n1(3)
  obtain p where p: "pending w1 k = Some p" "p \<in> set jobs1" by auto
  from preload_loop_count [OF l1, of k] fresh(2) p(1)
  have f1: "fetch_count w1 k = Suc (fetch_count w k)" by auto
  from preload_loop_count [OF l2, of k] p(1)
  have f2: "fetch_count w2 k = fetch_count w1 k" and pend2: "pending w2 k = Some p" by auto
  from preload_loop_jobs [OF l2 n2(1,2)] fresh(1) c1 n2(3)
  obtain p' where "pending w2 k = Some p'" "p' \<in> set jobs2" by auto
  with pend2 have in2: "p \<in> set jobs2" by simp
  from ok2 pend2 have pr: "p < length (promises w2)" "load_key (promises w2 ! p) = k"
    "load_state (promises w2 ! p) = InFlight"
    unfolding pending_ok_def by blast+
  have settle: "\<forall>ok. \<exists>w3. load_settle p ok w2 = Some w3 \<and> pending w3 k = None"
    using pr by (simp add: load_settle_def)
  have bound: "fetch_count w2 k' \<le> Suc (fetch_count w k')" for k'
    using preload_loop_count [OF l1, of k'] preload_loop_count [OF l2, of k']
    by (cases "pending w k'"; cases "pending w1 k'") auto
  from f1 f2 bound p(2) in2 pend2 pr(1,2) settle show ?thesis by auto
qed

theorem concurrent_preload_one_fetch_witness:
  "note_cache_key first_violin_note \<notin> cache new_world \<and>
   pending new_world (note_cache_key first_violin_note) = None \<and>
   fetch_count (snd (preload [first_violin_note] (snd (preload [first_violin_note] new_world))))
     (note_cache_key first_violin_note) = 1"
proof -
  let ?k = "note_cache_key first_violin_note"
  let ?w1 = "snd (preload [first_violin_note] new_world)"
  let ?w2 = "snd (preload [first_violin_note] ?w1)"
  have reach: "run [] new_world = Some new_world" by simp
  have p1: "preload [first_violin_note] new_world = (fst (preload [first_violin_note] new_world), ?w1)"
    by simp
  have p2: "preload [first_violin_note] ?w1 = (fst (preload [first_violin_note] ?w1), ?w2)"
    by simp
  have n: "first_violin_note \<in> set [first_violin_note]" "\<not> is_rest first_violin_note"
    by (simp_all add: first_violin_note_def)
  have fresh: "?k \<notin> cache new_world" "pending new_world ?k = None"
    by (simp_all add: new_world_def)
  have zero: "fetch_count new_world ?k = 0" by (simp add: fetch_count_def new_world_def)
  from concurrent_preload_one_fetch [OF reach p1 p2 n refl n refl fresh] zero
  have "fetch_count ?w2 ?k = 1" by simp
  with fresh show ?thesis by simp
qed

subsection \<open>Overlapping sessions\<close>

text \<open>
  Claim C1 fails on the code.  \<open>play\<close> is called, then \<open>stop\<close>, then \<open>play\<close> again
  while the samples of the first call are still loading.  When the load settles both
  calls resume, because the second call has set \<open>playing\<close> again, and both schedule
  their notes: two nodes that are not halted play the same note, and two playhead loops
  are running.  The same happens with two different scores.  When the first call has
  resumed before the second \<open>play\<close>, the second halts its nodes and one session is left.
\<close>

theorem overlapping_sessions_after_restart:
  "map_option (\<lambda>w. (map for_note (filter (\<lambda>nd. \<not> halted nd) (nodes w)),
                      scheduledNodes (engine w), frames w))
     (run [Play one_note_score 1, Stop, Play one_note_score 1,
           Settle 0 True, Resume 0, Resume 1] new_world) =
     Some ([''n1'', ''n1''], [0, 1], {1, 2}) \<and>
   map_option (\<lambda>w. (map for_note (filter (\<lambda>nd. \<not> halted nd) (nodes w)),
                      scheduledNodes (engine w), frames w))
     (run [Play one_note_score 1, Play cello_score 1,
           Settle 0 True, Resume 0, Settle 1 True, Resume 1] new_world) =
     Some ([''n1'', ''c1''], [0, 1], {1, 2}) \<and>
   map_option (\<lambda>w. (map for_note (filter (\<lambda>nd. \<not> halted nd) (nodes w)),
                      scheduledNodes (engine w), frames w))
     (run [Play one_note_score 1, Settle 0 True, Resume 0,
           Play cello_score 1, Settle 1 True, Resume 1] new_world) =
     Some ([''c1''], [1], {2})"
  by code_simp

end
